theory Spec2Isabelle
  imports Main "HOL-Library.Sublist"
begin

section \<open>Python string primitives\<close>

text \<open>
  File contents are Python \<^verbatim>\<open>str\<close> values read in text mode; they are modelled as
  \<^typ>\<open>string\<close>, one \<^typ>\<open>char\<close> per character: the value of a \<^typ>\<open>char\<close> is the code
  point of the character, so the model covers the texts whose code points are below 256.
\<close>

abbreviation NL :: char where "NL \<equiv> CHR 0x0A"
abbreviation TAB :: char where "TAB \<equiv> CHR 0x09"

text \<open>
  The characters matched by \<^verbatim>\<open>\s\<close> and stripped by \<^verbatim>\<open>str.rstrip()\<close>, those for
  which \<^verbatim>\<open>str.isspace()\<close> holds: below 256 these are the code points 9..13, 28..32, 133
  (U+0085) and 160 (U+00A0).
\<close>

definition is_space :: "char \<Rightarrow> bool" where
  "is_space ch =
     (let n = (of_char ch :: nat)
      in (9 \<le> n \<and> n \<le> 13) \<or> (28 \<le> n \<and> n \<le> 32) \<or> n = 133 \<or> n = 160)"

text \<open>
  \<^verbatim>\<open>str.lower()\<close> on one character: below 256 the upper-case letters are A..Z (65..90)
  and U+00C0..U+00DE without the multiplication sign U+00D7 (192..222 without 215); each
  has its lower-case letter 32 code points further.
\<close>

definition lower_char :: "char \<Rightarrow> char" where
  "lower_char ch =
     (let n = (of_char ch :: nat)
      in if (65 \<le> n \<and> n \<le> 90) \<or> (192 \<le> n \<and> n \<le> 222 \<and> n \<noteq> 215) then char_of (n + 32)
         else ch)"

text \<open>\<^verbatim>\<open>s.lower()\<close>\<close>

definition lower :: "string \<Rightarrow> string" where
  "lower s = map lower_char s"

text \<open>\<^verbatim>\<open>s.rstrip()\<close>\<close>

definition rstrip :: "string \<Rightarrow> string" where
  "rstrip s = rev (dropWhile is_space (rev s))"

text \<open>\<^verbatim>\<open>s.endswith(suf)\<close>\<close>

definition endswith :: "string \<Rightarrow> string \<Rightarrow> bool" where
  "endswith s suf = suffix suf s"

text \<open>\<^verbatim>\<open>sub in s\<close>: a left-to-right scan for the substring.\<close>

fun py_in :: "string \<Rightarrow> string \<Rightarrow> bool" where
  "py_in sub [] = (sub = [])"
| "py_in sub (x # xs) = (prefix sub (x # xs) \<or> py_in sub xs)"

text \<open>
  \<^verbatim>\<open>s.replace(old, new)\<close> without a count: every non-overlapping occurrence of
  \<^verbatim>\<open>old\<close> is replaced, scanning from the left. (With an empty \<^verbatim>\<open>old\<close> Python puts
  \<^verbatim>\<open>new\<close> before every character and at the end.)
\<close>

function py_replace :: "string \<Rightarrow> string \<Rightarrow> string \<Rightarrow> string" where
  "py_replace old new [] = (if old = [] then new else [])"
| "py_replace old new (x # xs) =
     (if old = [] then new @ concat (map (\<lambda>c. c # new) (x # xs))
      else if prefix old (x # xs) then new @ py_replace old new (drop (length old) (x # xs))
      else x # py_replace old new xs)"
  by pat_completeness auto
termination
  by (relation "measure (\<lambda>(old, new, s). length s)") (auto simp: neq_Nil_conv)

section \<open>The regular expressions of the scripts\<close>

text \<open>
  Four patterns of the scripts have the shape \<^verbatim>\<open>(LIT[^c]+)(TAIL)\<close>, where \<^verbatim>\<open>LIT\<close> is a
  literal, \<^verbatim>\<open>c\<close> one character and \<^verbatim>\<open>TAIL\<close> a literal that starts with \<^verbatim>\<open>c\<close>:
  \<^item> \<^verbatim>\<open>(type H struct \{[^}]+)(})\<close>,
  \<^item> \<^verbatim>\<open>(func NewH\([^)]+)(\) \*H)\<close>,
  \<^item> \<^verbatim>\<open>(return &H\{[^}]+)(})\<close>,
  \<^item> \<^verbatim>\<open>(H\(\s*[^)]+)(\))\<close>.
  Anchored at a position, the greedy class \<^verbatim>\<open>[^c]+\<close> takes the longest run of
  characters other than \<^verbatim>\<open>c\<close>; giving characters back never helps, because the next
  pattern character is \<^verbatim>\<open>c\<close> itself. So the pattern matches at the position iff the
  literal is there, the run is not empty and \<^verbatim>\<open>TAIL\<close> follows it, and group 1 is the
  literal with the run. In the fourth pattern \<^verbatim>\<open>\s*\<close> and \<^verbatim>\<open>[^)]+\<close> together cover the
  same run: white space is not \<^verbatim>\<open>)\<close>, and when only white space precedes \<^verbatim>\<open>)\<close> the
  engine gives one character of \<^verbatim>\<open>\s*\<close> back to \<^verbatim>\<open>[^)]+\<close>.

  \<open>span_at\<close> is the match anchored at the head of the text; it returns group 1.
\<close>

definition span_at :: "string \<Rightarrow> char \<Rightarrow> string \<Rightarrow> string \<Rightarrow> string option" where
  "span_at lit c tail s =
     (if prefix lit s then
        (let body = takeWhile (\<lambda>x. x \<noteq> c) (drop (length lit) s);
             rest = dropWhile (\<lambda>x. x \<noteq> c) (drop (length lit) s)
         in if body \<noteq> [] \<and> prefix tail rest then Some (lit @ body) else None)
      else None)"

text \<open>
  \<^verbatim>\<open>re.search\<close>: the leftmost position with a match. The result is the text before
  the match (its length is \<^verbatim>\<open>match.start()\<close>) and group 1.
\<close>

fun re_search :: "string \<Rightarrow> char \<Rightarrow> string \<Rightarrow> string \<Rightarrow> (string \<times> string) option" where
  "re_search lit c tail [] = None"
| "re_search lit c tail (x # xs) =
     (case span_at lit c tail (x # xs) of
        Some g \<Rightarrow> Some ([], g)
      | None \<Rightarrow> map_option (\<lambda>(before, g). (x # before, g)) (re_search lit c tail xs))"

text \<open>
  \<^verbatim>\<open>re.finditer\<close>: all non-overlapping matches from the left, each as
  \<^verbatim>\<open>(match.start(), match.end(), match.group(1))\<close>; \<^verbatim>\<open>match.end()\<close> is the end of the
  whole match, after \<^verbatim>\<open>TAIL\<close>. The first argument is the offset of the text in the
  content.
\<close>

function re_finditer :: "nat \<Rightarrow> string \<Rightarrow> char \<Rightarrow> string \<Rightarrow> string \<Rightarrow> (nat \<times> nat \<times> string) list" where
  "re_finditer off lit c tail [] = []"
| "re_finditer off lit c tail (x # xs) =
     (case span_at lit c tail (x # xs) of
        Some g \<Rightarrow> (off, off + length g + length tail, g)
                    # re_finditer (off + length g + length tail) lit c tail
                        (drop (length g + length tail) (x # xs))
      | None \<Rightarrow> re_finditer (Suc off) lit c tail xs)"
  by pat_completeness auto
termination
  by (relation "measure (\<lambda>(off, lit, c, tail, s). length s)")
     (auto simp: span_at_def Let_def split: if_splits)

section \<open>scripts/add-logging.py\<close>

subsection \<open>Step 1: the slog import\<close>

text \<open>
  \<^verbatim>\<open>
  if 'log/slog' not in content:
      content = content.replace(
          'import (\n\t"context"',
          'import (\n\t"context"\n\t"log/slog"'
      )
  \<close>
\<close>

definition import_anchor :: string where
  \<open>import_anchor = ''import ('' @ [NL, TAB] @ ''"context"''\<close>

definition import_new :: string where
  \<open>import_new = ''import ('' @ [NL, TAB] @ ''"context"'' @ [NL, TAB] @ ''"log/slog"''\<close>

definition add_import :: "string \<Rightarrow> string" where
  "add_import content =
     (if \<not> py_in ''log/slog'' content then py_replace import_anchor import_new content
      else content)"

subsection \<open>Step 2: the TODO comments\<close>

text \<open>
  \<^verbatim>\<open>
  content = re.sub(
      r'// TODO: log original error server-side: err\s*\n\s*return nil, status\.Error\(codes\.Internal, "internal error"\)',
      'h.logger.Error("handler error", "error", err)\n\t\treturn nil, status.Error(codes.Internal, "internal error")',
      content
  )
  \<close>
  The pattern is the comment \<open>todo_head\<close>, then \<^verbatim>\<open>\s*\n\s*\<close>, then the statement
  \<open>todo_fallback\<close>. The statement starts with a letter, so the white space between the
  two is the longest run of white space after the comment, and \<^verbatim>\<open>\s*\n\s*\<close> matches it
  iff it holds a newline. \<open>todo_match_at\<close> returns the matched text.
\<close>

definition todo_head :: string where
  "todo_head = ''// TODO: log original error server-side: err''"

definition todo_fallback :: string where
  \<open>todo_fallback = ''return nil, status.Error(codes.Internal, "internal error")''\<close>

definition todo_repl :: string where
  \<open>todo_repl = ''h.logger.Error("handler error", "error", err)'' @ [NL, TAB, TAB] @ todo_fallback\<close>

definition todo_match_at :: "string \<Rightarrow> string option" where
  "todo_match_at s =
     (if prefix todo_head s then
        (let ws = takeWhile is_space (drop (length todo_head) s);
             rest = dropWhile is_space (drop (length todo_head) s)
         in if NL \<in> set ws \<and> prefix todo_fallback rest
            then Some (todo_head @ ws @ todo_fallback) else None)
      else None)"

text \<open>\<^verbatim>\<open>re.sub\<close> of the pattern by \<open>todo_repl\<close>: every match from the left.\<close>

function replace_todos :: "string \<Rightarrow> string" where
  "replace_todos [] = []"
| "replace_todos (x # xs) =
     (case todo_match_at (x # xs) of
        Some m \<Rightarrow> todo_repl @ replace_todos (drop (length m) (x # xs))
      | None \<Rightarrow> x # replace_todos xs)"
  by pat_completeness auto
termination
  by (relation "measure length")
     (auto simp: todo_match_at_def todo_head_def Let_def split: if_splits)

subsection \<open>Steps 3 and 4: the handler catalog\<close>

definition handlers :: "string list" where
  "handlers = [''IdentityHandler'', ''FXHandler'', ''LedgerHandler'', ''AccountHandler'',
               ''PaymentHandler'', ''DepositHandler'', ''CardHandler'', ''LendingHandler'',
               ''FraudHandler'', ''ReportingHandler'']"

definition field_line :: string where
  "field_line = [NL, TAB] @ ''logger'' @ replicate 15 (CHR '' '') @ ''*slog.Logger''"

text \<open>
  The body of the first loop, for one handler:
  \<^verbatim>\<open>
  pattern = rf'(type {handler} struct \{{[^}}]+)(}})'
  match = re.search(pattern, content, re.DOTALL)
  if match and 'logger' not in match.group(1):
      fields = match.group(1)
      if '\tlogger' not in fields and 'logger *' not in fields:
          new_fields = fields + '\n\tlogger               *slog.Logger'
          content = content.replace(fields, new_fields)
  \<close>
\<close>

definition add_field :: "string \<Rightarrow> string \<Rightarrow> string" where
  "add_field handler content =
     (case re_search (''type '' @ handler @ '' struct {'') (CHR ''}'') ''}'' content of
        None \<Rightarrow> content
      | Some (before, fields) \<Rightarrow>
          if \<not> py_in ''logger'' fields then
            (if \<not> py_in (TAB # ''logger'') fields \<and> \<not> py_in ''logger *'' fields
             then py_replace fields (fields @ field_line) content
             else content)
          else content)"

text \<open>
  The body of the second loop, for one handler:
  \<^verbatim>\<open>
  pattern = rf'(func New{handler}\([^)]+)(\) \*{handler})'
  match = re.search(pattern, content)
  if match and 'logger' not in match.group(1):
      params = match.group(1)
      if params.endswith(',\n'):
          new_params = params + '\tlogger *slog.Logger,\n'
      elif params.endswith(')'):
          new_params = params.replace(')', ',\n\tlogger *slog.Logger,)')
      else:
          new_params = params + ',\n\tlogger *slog.Logger'
      content = content.replace(params, new_params)
      init_pattern = rf'(return &{handler}\{{[^}}]+)(}})'
      init_match = re.search(init_pattern, content, re.DOTALL)
      if init_match:
          init_fields = init_match.group(1)
          if 'logger:' not in init_fields and 'logger *' not in init_fields:
              new_init = init_fields + '\n\t\tlogger:               logger,'
              content = content.replace(init_fields, new_init)
  \<close>
\<close>

definition param_comma_nl :: string where
  "param_comma_nl = [TAB] @ ''logger *slog.Logger,'' @ [NL]"

definition param_paren :: string where
  "param_paren = '','' @ [NL, TAB] @ ''logger *slog.Logger,)''"

definition param_plain :: string where
  "param_plain = '','' @ [NL, TAB] @ ''logger *slog.Logger''"

definition new_params :: "string \<Rightarrow> string" where
  "new_params params =
     (if endswith params ('','' @ [NL]) then params @ param_comma_nl
      else if endswith params '')'' then py_replace '')'' param_paren params
      else params @ param_plain)"

definition init_line :: string where
  "init_line = [NL, TAB, TAB] @ ''logger:'' @ replicate 15 (CHR '' '') @ ''logger,''"

definition add_param :: "string \<Rightarrow> string \<Rightarrow> string" where
  "add_param handler content =
     (case re_search (''func New'' @ handler @ ''('') (CHR '')'') ('') *'' @ handler) content of
        None \<Rightarrow> content
      | Some (before, params) \<Rightarrow>
          if \<not> py_in ''logger'' params then
            (let content1 = py_replace params (new_params params) content
             in case re_search (''return &'' @ handler @ ''{'') (CHR ''}'') ''}'' content1 of
                  None \<Rightarrow> content1
                | Some (before1, init_fields) \<Rightarrow>
                    if \<not> py_in ''logger:'' init_fields \<and> \<not> py_in ''logger *'' init_fields
                    then py_replace init_fields (init_fields @ init_line) content1
                    else content1)
          else content)"

text \<open>The in-memory transform of \<^verbatim>\<open>update_handler_file\<close>.\<close>

definition update_handler_content :: "string \<Rightarrow> string" where
  "update_handler_content content =
     fold add_param handlers (fold add_field handlers (replace_todos (add_import content)))"

subsection \<open>Files\<close>

text \<open>
  The file system is a map from paths to contents. Every function on files returns the
  new file system and the list of the writes it made; opening a missing file raises.
  \<^verbatim>\<open>
  with open(filepath, 'r') as f:
      content = f.read()
  original = content
  ...
  if content != original:
      with open(filepath, 'w') as f:
          f.write(content)
      return True
  return False
  \<close>
\<close>

datatype error = FileNotFoundError

type_synonym filesystem = "string \<rightharpoonup> string"

type_synonym writes = "(string \<times> string) list"

definition update_handler_file :: "filesystem \<Rightarrow> string \<Rightarrow> error + (filesystem \<times> writes \<times> bool)" where
  "update_handler_file fs filepath =
     (case fs filepath of
        None \<Rightarrow> Inl FileNotFoundError
      | Some original \<Rightarrow>
          (let content = update_handler_content original
           in if content \<noteq> original
              then Inr (fs(filepath \<mapsto> content), [(filepath, content)], True)
              else Inr (fs, [], False)))"

section \<open>scripts/update-mains.py and scripts/update-tests.py\<close>

definition constructors :: "string list" where
  "constructors = [''NewIdentityHandler'', ''NewFXHandler'', ''NewLedgerHandler'',
                   ''NewAccountHandler'', ''NewPaymentHandler'', ''NewDepositHandler'',
                   ''NewCardHandler'', ''NewLendingHandler'', ''NewFraudHandler'',
                   ''NewReportingHandler'']"

text \<open>
  The new argument list, the same in both scripts:
  \<^verbatim>\<open>
  if args.rstrip().endswith(','):
      new_args = args + '\n\t\tlogger,'
  else:
      new_args = args + ',\n\t\tlogger,'
  \<close>
\<close>

definition new_args :: "string \<Rightarrow> string" where
  "new_args args =
     (if endswith (rstrip args) '','' then args @ [NL, TAB, TAB] @ ''logger,''
      else args @ '','' @ [NL, TAB, TAB] @ ''logger,'')"

text \<open>
  The loop body of \<^verbatim>\<open>update_main_file\<close>, for one constructor:
  \<^verbatim>\<open>
  pattern = rf'({handler}\(\s*[^)]+)(\))'
  match = re.search(pattern, content)
  if match:
      args = match.group(1)
      if 'logger' not in args.lower():
          ...
          content = content.replace(args, new_args)
  \<close>
\<close>

definition add_arg_main :: "string \<Rightarrow> string \<Rightarrow> string" where
  "add_arg_main handler content =
     (case re_search (handler @ ''('') (CHR '')'') '')'' content of
        None \<Rightarrow> content
      | Some (before, args) \<Rightarrow>
          if \<not> py_in ''logger'' (lower args) then py_replace args (new_args args) content
          else content)"

definition update_main_content :: "string \<Rightarrow> string" where
  "update_main_content content = fold add_arg_main constructors content"

definition update_main_file :: "filesystem \<Rightarrow> string \<Rightarrow> error + (filesystem \<times> writes \<times> bool)" where
  "update_main_file fs filepath =
     (case fs filepath of
        None \<Rightarrow> Inl FileNotFoundError
      | Some original \<Rightarrow>
          (let content = update_main_content original
           in if content \<noteq> original
              then Inr (fs(filepath \<mapsto> content), [(filepath, content)], True)
              else Inr (fs, [], False)))"

text \<open>
  \<^verbatim>\<open>update-tests.py\<close>, for one constructor:
  \<^verbatim>\<open>
  pattern = rf'({handler}\(\s*[^)]+)(\))'
  matches = list(re.finditer(pattern, content))
  for match in reversed(matches):
      args = match.group(1)
      if 'logger' not in args.lower() and 'log' not in args.lower():
          ...
          content = content[:match.start()] + new_args + content[match.end():]
  \<close>
  \<open>splice_test\<close> is one step of the inner loop. The positions are those of the matches
  in the content before the loop; the loop goes from the last match to the first, so the
  text in front of a match is still in place when its turn comes.
\<close>

definition splice_test :: "string \<Rightarrow> nat \<times> nat \<times> string \<Rightarrow> string" where
  "splice_test content m =
     (case m of (start, end, args) \<Rightarrow>
        if \<not> py_in ''logger'' (lower args) \<and> \<not> py_in ''log'' (lower args)
        then take start content @ new_args args @ drop end content
        else content)"

definition add_arg_test :: "string \<Rightarrow> string \<Rightarrow> string" where
  "add_arg_test handler content =
     foldl splice_test content (rev (re_finditer 0 (handler @ ''('') (CHR '')'') '')'' content))"

text \<open>
  \<^verbatim>\<open>
  if 'log/slog' not in content and '"testing"' in content:
      content = content.replace('"testing"', '"log/slog"\n\t"testing"')
  \<close>
\<close>

definition add_import_test :: "string \<Rightarrow> string" where
  \<open>add_import_test content =
     (if \<not> py_in ''log/slog'' content \<and> py_in ''"testing"'' content
      then py_replace ''"testing"'' (''"log/slog"'' @ [NL, TAB] @ ''"testing"'') content
      else content)\<close>

definition update_test_content :: "string \<Rightarrow> string" where
  "update_test_content content = fold add_arg_test constructors (add_import_test content)"

text \<open>The body of the loop over the test files; the flag says whether the file was counted.\<close>

definition update_test_file :: "filesystem \<Rightarrow> string \<Rightarrow> error + (filesystem \<times> writes \<times> bool)" where
  "update_test_file fs f =
     (case fs f of
        None \<Rightarrow> Inl FileNotFoundError
      | Some original \<Rightarrow>
          (let content = update_test_content original
           in if content \<noteq> original
              then Inr (fs(f \<mapsto> content), [(f, content)], True)
              else Inr (fs, [], False)))"

section \<open>scripts/fix-healthchecks.py\<close>

text \<open>
  The pattern is
  \<^verbatim>\<open>(test: \["CMD", "wget"[^]]*healthz"\]\n\s+interval: 10s)(?!.*start_period)\<close>
  with \<^verbatim>\<open>re.DOTALL\<close>. After the literal, \<^verbatim>\<open>[^]]*healthz"\]\<close> matches iff the longest run
  of characters other than \<^verbatim>\<open>]\<close> ends with \<^verbatim>\<open>healthz"\<close> and a \<^verbatim>\<open>]\<close> follows it;
  \<^verbatim>\<open>\s+\<close> is the longest run of white space before \<^verbatim>\<open>interval\<close>. With
  \<^verbatim>\<open>DOTALL\<close> the dot matches newlines, so the lookahead \<^verbatim>\<open>(?!.*start_period)\<close> fails
  iff \<^verbatim>\<open>start_period\<close> occurs anywhere in the rest of the document.
  \<open>hc_block_at\<close> is group 1 anchored at the head, without the lookahead;
  \<open>hc_match_at\<close> adds the lookahead.
\<close>

definition hc_lit :: string where
  \<open>hc_lit = ''test: ["CMD", "wget"''\<close>

definition hc_block_at :: "string \<Rightarrow> string option" where
  \<open>hc_block_at s =
     (if prefix hc_lit s then
        (let body = takeWhile (\<lambda>x. x \<noteq> CHR '']'') (drop (length hc_lit) s);
             r1 = dropWhile (\<lambda>x. x \<noteq> CHR '']'') (drop (length hc_lit) s)
         in if suffix ''healthz"'' body \<and> prefix ('']'' @ [NL]) r1 then
              (let ws = takeWhile is_space (drop 2 r1);
                   r2 = dropWhile is_space (drop 2 r1)
               in if ws \<noteq> [] \<and> prefix ''interval: 10s'' r2
                  then Some (hc_lit @ body @ '']'' @ [NL] @ ws @ ''interval: 10s'')
                  else None)
            else None)
      else None)\<close>

definition hc_match_at :: "string \<Rightarrow> string option" where
  "hc_match_at s =
     (case hc_block_at s of
        None \<Rightarrow> None
      | Some g \<Rightarrow> if \<not> py_in ''start_period'' (drop (length g) s) then Some g else None)"

text \<open>The replacement is \<^verbatim>\<open>r'\1\n      start_period: 30s'\<close>: group 1, then \<open>hc_insert\<close>.\<close>

definition hc_insert :: string where
  "hc_insert = [NL] @ replicate 6 (CHR '' '') @ ''start_period: 30s''"

text \<open>\<^verbatim>\<open>re.sub(pattern, replacement, content, flags=re.DOTALL)\<close>\<close>

function fix_healthchecks :: "string \<Rightarrow> string" where
  "fix_healthchecks [] = []"
| "fix_healthchecks (x # xs) =
     (case hc_match_at (x # xs) of
        Some g \<Rightarrow> g @ hc_insert @ fix_healthchecks (drop (length g) (x # xs))
      | None \<Rightarrow> x # fix_healthchecks xs)"
  by pat_completeness auto
termination
  by (relation "measure length")
     (auto simp: hc_match_at_def hc_block_at_def hc_lit_def Let_def split: if_splits option.splits)

definition compose_file :: string where
  "compose_file = ''docker-compose.yml''"

text \<open>
  The module body: read, substitute, write.
  \<^verbatim>\<open>
  with open('docker-compose.yml', 'r') as f:
      content = f.read()
  ...
  new_content = re.sub(pattern, replacement, content, flags=re.DOTALL)
  with open('docker-compose.yml', 'w') as f:
      f.write(new_content)
  \<close>
\<close>

definition fix_healthchecks_script :: "filesystem \<Rightarrow> error + (filesystem \<times> writes)" where
  "fix_healthchecks_script fs =
     (case fs compose_file of
        None \<Rightarrow> Inl FileNotFoundError
      | Some content \<Rightarrow>
          (let new_content = fix_healthchecks content
           in Inr (fs(compose_file \<mapsto> new_content), [(compose_file, new_content)])))"

section \<open>Properties\<close>

text \<open>
  A substitution of the first occurrence only, as \<^verbatim>\<open>s.replace(old, new, 1)\<close> would do it;
  the scripts do not use it.
\<close>

fun replace_first :: "string \<Rightarrow> string \<Rightarrow> string \<Rightarrow> string" where
  "replace_first old new [] = (if old = [] then new else [])"
| "replace_first old new (x # xs) =
     (if prefix old (x # xs) then new @ drop (length old) (x # xs)
      else x # replace_first old new xs)"

text \<open>
  A span is separator-terminated when a comma ends it, white space aside; a text has a
  double separator when two commas follow each other with white space only between them.
\<close>

definition separator_terminated :: "string \<Rightarrow> bool" where
  "separator_terminated span = endswith (rstrip span) '',''"

fun double_separator :: "string \<Rightarrow> bool" where
  "double_separator [] = False"
| "double_separator (x # xs) =
     ((x = CHR '','' \<and> prefix '','' (dropWhile is_space xs)) \<or> double_separator xs)"






text \<open>
  The postcondition checks of the rules of \<^verbatim>\<open>update_handler_file\<close>, as the code makes
  them: the import is there or its anchor is missing; no placeholder (marker comment with
  its fallback statement) is left; for every handler of the catalog, the first struct
  body found and the first parameter list found mention \<^verbatim>\<open>logger\<close>.
\<close>

fun todo_pending :: "string \<Rightarrow> bool" where
  "todo_pending [] = False"
| "todo_pending (x # xs) = (todo_match_at (x # xs) \<noteq> None \<or> todo_pending xs)"

definition import_ok :: "string \<Rightarrow> bool" where
  "import_ok content = (py_in ''log/slog'' content \<or> \<not> py_in import_anchor content)"

definition field_ok :: "string \<Rightarrow> string \<Rightarrow> bool" where
  "field_ok handler content =
     (case re_search (''type '' @ handler @ '' struct {'') (CHR ''}'') ''}'' content of
        None \<Rightarrow> True
      | Some (before, fields) \<Rightarrow> py_in ''logger'' fields)"

definition param_ok :: "string \<Rightarrow> string \<Rightarrow> bool" where
  "param_ok handler content =
     (case re_search (''func New'' @ handler @ ''('') (CHR '')'') ('') *'' @ handler) content of
        None \<Rightarrow> True
      | Some (before, params) \<Rightarrow> py_in ''logger'' params)"

definition postconditions :: "string \<Rightarrow> bool" where
  "postconditions content =
     (import_ok content \<and> \<not> todo_pending content
      \<and> list_all (\<lambda>h. field_ok h content) handlers
      \<and> list_all (\<lambda>h. param_ok h content) handlers)"

subsection \<open>Unique spans\<close>

text \<open>
  The check both handler rules make on the first span they find: group 1 of the first
  match of the pattern (a literal, a body without the character \<open>c\<close>, then the tail),
  if there is a match, mentions \<^verbatim>\<open>logger\<close>. \<open>field_ok\<close> and \<open>param_ok\<close> are instances of
  it.
\<close>

definition logger_found :: "string \<Rightarrow> char \<Rightarrow> string \<Rightarrow> string \<Rightarrow> bool" where
  "logger_found lit c tail content =
     (case re_search lit c tail content of
        None \<Rightarrow> True
      | Some (before, g) \<Rightarrow> py_in ''logger'' g)"

text \<open>
  The text \<open>ins\<close>, put before a character \<open>k\<close>, fits a pattern when it can neither
  complete nor cut a match of it: the pattern's literal and tail hold neither \<open>k\<close> nor
  the first character of \<open>ins\<close>, and \<open>ins\<close> holds neither the last character of the
  literal nor \<open>c\<close>, and mentions \<^verbatim>\<open>logger\<close>.
\<close>

definition fits :: "string \<Rightarrow> char \<Rightarrow> string \<Rightarrow> string \<Rightarrow> char \<Rightarrow> bool" where
  "fits lit c t' ins k =
     (lit \<noteq> [] \<and> k \<notin> set lit \<and> last lit \<notin> set ins \<and> ins \<noteq> [] \<and> hd ins \<notin> set lit
      \<and> c \<notin> set ins \<and> py_in ''logger'' ins \<and> k \<notin> set t' \<and> hd ins \<notin> set t')"

text \<open>
  The texts the handler rules put in, each before a closing brace or a closing
  parenthesis; a handler name without brace, parenthesis, comma, newline or tab, as
  every name of the catalog is.
\<close>

definition inserted :: "string \<Rightarrow> char \<Rightarrow> bool" where
  "inserted ins k =
     ((ins = field_line \<or> ins = param_plain \<or> ins = param_comma_nl \<or> ins = init_line)
      \<and> (k = CHR ''}'' \<or> k = CHR '')''))"

definition good_name :: "string \<Rightarrow> bool" where
  "good_name h = list_all (\<lambda>x. x \<noteq> CHR ''}'' \<and> x \<noteq> CHR '')'' \<and> x \<noteq> CHR '','' \<and> x \<noteq> NL \<and> x \<noteq> TAB) h"

text \<open>
  The number of positions of a text at which \<open>g\<close> starts.
\<close>

fun occurrences :: "string \<Rightarrow> string \<Rightarrow> nat" where
  "occurrences g [] = 0"
| "occurrences g (x # xs) = (if prefix g (x # xs) then 1 else 0) + occurrences g xs"

text \<open>
  A rule rewrites the span it has located with \<^verbatim>\<open>content.replace\<close>, at every occurrence
  of the span's text. The span of the field rule for a handler is unique in a content
  when the rule finds no span, or finds \<^verbatim>\<open>logger\<close> in it and rewrites nothing, or the
  span's text occurs once in the content. For the parameter rule the same holds of the
  parameter list, and of the struct literal it finds after the parameter list has been
  rewritten. A content has unique spans when, after the import and placeholder rules, this
  holds at every round of the first loop and of the second, on the content that round works on.
\<close>

definition field_unique :: "string \<Rightarrow> string \<Rightarrow> bool" where
  "field_unique handler content =
     (case re_search (''type '' @ handler @ '' struct {'') (CHR ''}'') ''}'' content of
        None \<Rightarrow> True
      | Some (before, fields) \<Rightarrow> py_in ''logger'' fields \<or> occurrences fields content = 1)"

definition param_unique :: "string \<Rightarrow> string \<Rightarrow> bool" where
  "param_unique handler content =
     (case re_search (''func New'' @ handler @ ''('') (CHR '')'') ('') *'' @ handler) content of
        None \<Rightarrow> True
      | Some (before, params) \<Rightarrow>
          py_in ''logger'' params
          \<or> (occurrences params content = 1
             \<and> (let content1 = py_replace params (new_params params) content
                in case re_search (''return &'' @ handler @ ''{'') (CHR ''}'') ''}'' content1 of
                     None \<Rightarrow> True
                   | Some (before1, init_fields) \<Rightarrow>
                       py_in ''logger:'' init_fields \<or> py_in ''logger *'' init_fields
                       \<or> occurrences init_fields content1 = 1)))"

fun fields_unique :: "string list \<Rightarrow> string \<Rightarrow> bool" where
  "fields_unique [] content = True"
| "fields_unique (h # hs) content = (field_unique h content \<and> fields_unique hs (add_field h content))"

fun params_unique :: "string list \<Rightarrow> string \<Rightarrow> bool" where
  "params_unique [] content = True"
| "params_unique (h # hs) content = (param_unique h content \<and> params_unique hs (add_param h content))"

definition spans_unique :: "string \<Rightarrow> bool" where
  "spans_unique content =
     (let content1 = replace_todos (add_import content)
      in fields_unique handlers content1
         \<and> params_unique handlers (fold add_field handlers content1))"

text \<open>A small handler file: an import block, a handler struct and its constructor.\<close>

definition example_handler_go :: string where
  \<open>example_handler_go =
     ''import ('' @ [NL, TAB] @ ''"context"'' @ [NL] @ '')'' @ [NL]
     @ ''type FXHandler struct {'' @ [NL, TAB] @ ''svc Service'' @ [NL] @ ''}'' @ [NL]
     @ ''func NewFXHandler(svc Service) *FXHandler {'' @ [NL, TAB]
     @ ''return &FXHandler{svc: svc}'' @ [NL] @ ''}'' @ [NL]\<close>

section \<open>Strings, search and replacement\<close>

lemma py_in_sublist: "py_in sub s = sublist sub s"
  by (induction s) (simp_all add: sublist_Cons_right)

lemma py_in_trans: "py_in a b \<Longrightarrow> py_in b s \<Longrightarrow> py_in a s"
  unfolding py_in_sublist by (rule sublist_order.order_trans)

lemma py_in_prefix: "prefix sub s \<Longrightarrow> py_in sub s"
  by (simp add: py_in_sublist)

lemma py_in_appendI: "py_in sub (ps @ sub @ ss)"
  by (simp add: py_in_sublist)

lemma py_replace_absent:
  assumes "old \<noteq> []" and "\<not> py_in old s"
  shows "py_replace old new s = s"
  using assms by (induction s) auto

lemma span_at_prefix: "span_at lit c tail s = Some g \<Longrightarrow> prefix lit s"
  by (simp add: span_at_def split: if_splits)

lemma re_search_absent: "\<not> py_in lit s \<Longrightarrow> re_search lit c tail s = None"
proof (induction s)
  case Nil
  show ?case by simp
next
  case (Cons x xs)
  from Cons.prems have "\<not> prefix lit (x # xs)" and "\<not> py_in lit xs"
    by simp_all
  then show ?case
    using Cons.IH by (simp add: span_at_def)
qed

lemma todo_match_at_prefix: "todo_match_at s = Some m \<Longrightarrow> prefix todo_head s"
  by (simp add: todo_match_at_def split: if_splits)

lemma replace_todos_absent: "\<not> py_in todo_head s \<Longrightarrow> replace_todos s = s"
proof (induction s)
  case Nil
  show ?case by simp
next
  case (Cons x xs)
  from Cons.prems have "\<not> prefix todo_head (x # xs)" and "\<not> py_in todo_head xs"
    by simp_all
  then show ?case
    using Cons.IH by (simp add: todo_match_at_def)
qed

lemma add_import_absent: "\<not> py_in import_anchor s \<Longrightarrow> add_import s = s"
  by (simp add: add_import_def py_replace_absent import_anchor_def)

lemma add_field_absent: "\<not> py_in h s \<Longrightarrow> add_field h s = s"
proof -
  assume a: "\<not> py_in h s"
  have "py_in h (''type '' @ h @ '' struct {'')"
    by (rule py_in_appendI)
  with a have "\<not> py_in (''type '' @ h @ '' struct {'') s"
    using py_in_trans by blast
  then show ?thesis
    by (simp add: add_field_def re_search_absent)
qed

lemma add_param_absent: "\<not> py_in h s \<Longrightarrow> add_param h s = s"
proof -
  assume a: "\<not> py_in h s"
  have "py_in h (''func New'' @ h @ ''('')"
    by (rule py_in_appendI)
  with a have "\<not> py_in (''func New'' @ h @ ''('') s"
    using py_in_trans by blast
  then show ?thesis
    by (simp add: add_param_def re_search_absent)
qed

lemma fold_absent:
  assumes "\<And>h. h \<in> set hs \<Longrightarrow> f h s = s"
  shows "fold f hs s = s"
  using assms by (induction hs) simp_all

lemma span_at_SomeD:
  assumes "span_at lit c tail s = Some g"
  shows "\<exists>body rest. s = lit @ body @ rest \<and> g = lit @ body \<and> body \<noteq> [] \<and> c \<notin> set body
           \<and> prefix tail rest \<and> (rest = [] \<or> hd rest = c)"
proof -
  from assms obtain r where s: "s = lit @ r"
    by (auto simp: span_at_def prefix_def split: if_splits)
  let ?body = "takeWhile (\<lambda>x. x \<noteq> c) r"
  let ?rest = "dropWhile (\<lambda>x. x \<noteq> c) r"
  from assms s have g: "g = lit @ ?body" and ne: "?body \<noteq> []" and t: "prefix tail ?rest"
    by (auto simp: span_at_def Let_def split: if_splits)
  have "c \<notin> set ?body"
    by (auto dest: set_takeWhileD)
  moreover have "?rest = [] \<or> hd ?rest = c"
    using hd_dropWhile [of "\<lambda>x. x \<noteq> c" r] by auto
  moreover have "s = lit @ ?body @ ?rest"
    using s by simp
  ultimately show ?thesis
    using g ne t by blast
qed

lemma takeWhile_until:
  "c \<notin> set body \<Longrightarrow> takeWhile (\<lambda>x. x \<noteq> c) (body @ c # rest) = body"
  by (induction body) auto

lemma dropWhile_until:
  "c \<notin> set body \<Longrightarrow> dropWhile (\<lambda>x. x \<noteq> c) (body @ c # rest) = c # rest"
  by (induction body) auto

lemma span_at_SomeI:
  assumes "c \<notin> set body" and "body \<noteq> []" and "prefix tail (c # rest)"
  shows "span_at lit c tail (lit @ body @ c # rest) = Some (lit @ body)"
proof -
  have "takeWhile (\<lambda>x. x \<noteq> c) (body @ c # rest) = body"
    using assms(1) by (rule takeWhile_until)
  moreover have "dropWhile (\<lambda>x. x \<noteq> c) (body @ c # rest) = c # rest"
    using assms(1) by (rule dropWhile_until)
  ultimately show ?thesis
    using assms(2,3) by (simp add: span_at_def)
qed

lemma re_search_SomeD:
  assumes "re_search lit c tail s = Some (before, g)"
  shows "\<exists>rest. s = before @ g @ rest \<and> span_at lit c tail (g @ rest) = Some g
           \<and> (\<forall>i < length before. span_at lit c tail (drop i s) = None)"
  using assms
proof (induction s arbitrary: before)
  case Nil
  then show ?case by simp
next
  case (Cons x xs)
  show ?case
  proof (cases "span_at lit c tail (x # xs)")
    case (Some g')
    with Cons.prems have b: "before = []" and g: "g' = g"
      by simp_all
    from Some g obtain body rest where "x # xs = lit @ body @ rest" "g = lit @ body"
      using span_at_SomeD by blast
    then have "x # xs = g @ rest" by simp
    with Some g b show ?thesis by auto
  next
    case None
    with Cons.prems obtain b' where b: "before = x # b'" and r: "re_search lit c tail xs = Some (b', g)"
      by auto
    from Cons.IH [OF r] obtain rest where xs: "xs = b' @ g @ rest"
      and sp: "span_at lit c tail (g @ rest) = Some g"
      and no: "\<forall>i < length b'. span_at lit c tail (drop i xs) = None"
      by blast
    have "\<forall>i < length before. span_at lit c tail (drop i (x # xs)) = None"
    proof (intro allI impI)
      fix i assume "i < length before"
      then show "span_at lit c tail (drop i (x # xs)) = None"
        using None no b by (cases i) auto
    qed
    with xs sp b show ?thesis by auto
  qed
qed

lemma re_search_SomeI:
  assumes "span_at lit c tail rest = Some g"
    and "\<forall>i < length before. span_at lit c tail (drop i (before @ rest)) = None"
  shows "re_search lit c tail (before @ rest) = Some (before, g)"
  using assms
proof (induction before)
  case Nil
  then show ?case by (cases rest) (auto simp: span_at_def Let_def split: if_splits)
next
  case (Cons x b)
  from Cons.prems(2) have 0: "span_at lit c tail (x # b @ rest) = None"
    by force
  have "\<forall>i < length b. span_at lit c tail (drop i (b @ rest)) = None"
  proof (intro allI impI)
    fix i assume "i < length b"
    then have "Suc i < length (x # b)" by simp
    from Cons.prems(2) [rule_format, OF this] show "span_at lit c tail (drop i (b @ rest)) = None"
      by simp
  qed
  from Cons.IH [OF Cons.prems(1) this] 0 show ?case by simp
qed

text \<open>With a one-character tail, the first match is the first occurrence of its text.\<close>

lemma span_at_of_prefix:
  assumes "prefix (lit @ body) s" and "body \<noteq> []" and "c \<notin> set body"
    and "c \<in> set (drop (length lit + length body) s)"
  shows "span_at lit c [c] s \<noteq> None"
proof -
  from assms(1) obtain t where s: "s = lit @ body @ t"
    by (auto simp: prefix_def)
  with assms(4) have "c \<in> set t" by simp
  then obtain t1 t2 where t: "t = t1 @ c # t2" and "c \<notin> set t1"
    by (auto dest: split_list_first)
  then have "span_at lit c [c] (lit @ (body @ t1) @ c # t2) = Some (lit @ body @ t1)"
    using assms(2,3) by (intro span_at_SomeI) auto
  then show ?thesis using s t by simp
qed

lemma first_match_first_occurrence:
  assumes "re_search lit c [c] s = Some (before, g)" and "i < length before"
  shows "\<not> prefix g (drop i s)"
proof
  assume p: "prefix g (drop i s)"
  from re_search_SomeD [OF assms(1)] obtain rest where s: "s = before @ g @ rest"
    and sp: "span_at lit c [c] (g @ rest) = Some g"
    and no: "\<forall>i < length before. span_at lit c [c] (drop i s) = None"
    by blast
  from span_at_SomeD [OF sp] obtain body rest' where gr: "g @ rest = lit @ body @ rest'"
    and g: "g = lit @ body" and ne: "body \<noteq> []" and nc: "c \<notin> set body" and pre: "prefix [c] rest'"
    by blast
  from gr g have "rest = rest'" by simp
  with pre obtain r2 where rest: "rest = c # r2"
    by (cases rest) auto
  have s': "s = (before @ g) @ c # r2"
    using s rest by simp
  have d: "drop (length g) (drop i s) = drop (i + length g) ((before @ g) @ c # r2)"
    by (subst s') (simp only: drop_drop add.commute)
  have "i + length g \<le> length (before @ g)"
    using assms(2) by simp
  then have "c \<in> set (drop (i + length g) ((before @ g) @ c # r2))"
    by (simp only: drop_append set_append) simp
  with d have "c \<in> set (drop (length lit + length body) (drop i s))"
    using g by simp
  from span_at_of_prefix [OF _ ne nc this] p g have "span_at lit c [c] (drop i s) \<noteq> None"
    by simp
  with no assms(2) show False by simp
qed

lemma py_replace_skip:
  assumes "g \<noteq> []" and "\<forall>i < length before. \<not> prefix g (drop i (before @ rest))"
  shows "py_replace g new (before @ rest) = before @ py_replace g new rest"
  using assms(2)
proof (induction before)
  case Nil
  show ?case by simp
next
  case (Cons x b)
  from Cons.prems have 0: "\<not> prefix g (x # b @ rest)"
    by force
  have "\<forall>i < length b. \<not> prefix g (drop i (b @ rest))"
  proof (intro allI impI)
    fix i assume "i < length b"
    then have "Suc i < length (x # b)" by simp
    from Cons.prems [rule_format, OF this] show "\<not> prefix g (drop i (b @ rest))"
      by simp
  qed
  from Cons.IH [OF this] 0 assms(1) show ?case by simp
qed

lemma py_replace_at:
  assumes "g \<noteq> []"
  shows "py_replace g new (g @ rest) = new @ py_replace g new rest"
  using assms by (cases g) auto

lemma py_replace_first_match:
  assumes "re_search lit c [c] s = Some (before, g)"
  shows "py_replace g new s = before @ new @ py_replace g new (drop (length before + length g) s)"
proof -
  from re_search_SomeD [OF assms] obtain rest where s: "s = before @ g @ rest"
    and sp: "span_at lit c [c] (g @ rest) = Some g"
    by blast
  from span_at_SomeD [OF sp] have ne: "g \<noteq> []" by auto
  have "\<forall>i < length before. \<not> prefix g (drop i (before @ g @ rest))"
    using first_match_first_occurrence [OF assms] s by simp
  from py_replace_skip [OF ne this] have "py_replace g new s = before @ py_replace g new (g @ rest)"
    using s by simp
  also have "\<dots> = before @ new @ py_replace g new rest"
    by (simp add: py_replace_at [OF ne])
  finally show ?thesis using s by simp
qed

lemma py_in_logger_star: "py_in ''logger *'' s \<Longrightarrow> py_in ''logger'' s"
proof -
  have "py_in ''logger'' ''logger *''" by simp
  then show "py_in ''logger *'' s \<Longrightarrow> py_in ''logger'' s"
    by (rule py_in_trans)
qed

lemma py_in_tab_logger: "py_in (TAB # ''logger'') s \<Longrightarrow> py_in ''logger'' s"
proof -
  have "py_in ''logger'' (TAB # ''logger'')" by simp
  then show "py_in (TAB # ''logger'') s \<Longrightarrow> py_in ''logger'' s"
    by (rule py_in_trans)
qed

section \<open>Separators\<close>

lemma comma_not_space: "\<not> is_space (CHR '','')"
  by (simp add: is_space_def)

lemma suffix_single: "suffix [c] xs = (xs \<noteq> [] \<and> last xs = c)"
  by (cases xs rule: rev_cases) (auto simp: suffix_def)

lemma rstrip_all_space: "\<forall>z \<in> set xs. is_space z \<Longrightarrow> rstrip xs = []"
  by (simp add: rstrip_def)

lemma rstrip_Cons:
  "rstrip (x # xs) =
     (if \<forall>z \<in> set xs. is_space z then (if is_space x then [] else [x]) else x # rstrip xs)"
  by (simp add: rstrip_def dropWhile_append)

lemma separator_terminated_Nil: "\<not> separator_terminated []"
  by (simp add: separator_terminated_def endswith_def rstrip_def)

lemma separator_terminated_Cons:
  "separator_terminated (x # xs) =
     (if \<forall>z \<in> set xs. is_space z then x = CHR '','' else separator_terminated xs)"
proof (cases "\<forall>z \<in> set xs. is_space z")
  case True
  then show ?thesis
    using comma_not_space
    by (auto simp: separator_terminated_def endswith_def rstrip_Cons suffix_single)
next
  case False
  then have "rstrip xs \<noteq> []"
    by (auto simp: rstrip_def dropWhile_eq_Nil_conv)
  with False show ?thesis
    by (auto simp: separator_terminated_def endswith_def rstrip_Cons suffix_single)
qed

lemma double_separator_append:
  "double_separator (xs @ ys) =
     (double_separator xs \<or> double_separator ys
      \<or> (separator_terminated xs \<and> prefix '','' (dropWhile is_space ys)))"
proof (induction xs)
  case Nil
  show ?case by (simp add: separator_terminated_Nil)
next
  case (Cons x xs)
  show ?case
  proof (cases "\<forall>z \<in> set xs. is_space z")
    case True
    then have d: "dropWhile is_space (xs @ ys) = dropWhile is_space ys"
      by (simp add: dropWhile_append)
    from True have e: "dropWhile is_space xs = []"
      by simp
    have n: "\<not> separator_terminated xs" if "\<forall>z \<in> set xs. is_space z"
      using that by (simp add: separator_terminated_def endswith_def rstrip_all_space)
    show ?thesis
      using True n Cons.IH by (auto simp: separator_terminated_Cons d e)
  next
    case False
    then have d: "dropWhile is_space (xs @ ys) = dropWhile is_space xs @ ys"
      by (auto simp: dropWhile_append)
    from False have "dropWhile is_space xs \<noteq> []"
      by (auto simp: dropWhile_eq_Nil_conv)
    then have p: "prefix '','' (dropWhile is_space xs @ ys) = prefix '','' (dropWhile is_space xs)"
      by (cases "dropWhile is_space xs") auto
    show ?thesis
      using False Cons.IH by (auto simp: separator_terminated_Cons d p)
  qed
qed

lemma new_args_no_double:
  assumes "\<not> double_separator args"
  shows "\<not> double_separator (new_args args)"
proof (cases "separator_terminated args")
  case True
  then have "new_args args = args @ ([NL, TAB, TAB] @ ''logger,'')"
    by (simp add: new_args_def separator_terminated_def)
  moreover have "\<not> double_separator ([NL, TAB, TAB] @ ''logger,'')"
    by (simp add: is_space_def)
  moreover have "\<not> prefix '','' (dropWhile is_space ([NL, TAB, TAB] @ ''logger,''))"
    by (simp add: is_space_def)
  ultimately show ?thesis
    using assms by (simp only: double_separator_append) simp
next
  case False
  then have "new_args args = args @ ('','' @ [NL, TAB, TAB] @ ''logger,'')"
    by (simp add: new_args_def separator_terminated_def)
  moreover have "\<not> double_separator ('','' @ [NL, TAB, TAB] @ ''logger,'')"
    by (simp add: is_space_def)
  ultimately show ?thesis
    using assms False by (simp only: double_separator_append) simp
qed

lemma comma_nl_terminated:
  "endswith params ('','' @ [NL]) \<Longrightarrow> separator_terminated params"
  by (auto simp: suffix_def separator_terminated_def endswith_def rstrip_def is_space_def)

lemma located_span_last:
  assumes "re_search lit c tail content = Some (before, g)"
  shows "\<not> endswith g [c]"
proof -
  from re_search_SomeD [OF assms] obtain rest where "span_at lit c tail (g @ rest) = Some g"
    by blast
  from span_at_SomeD [OF this] obtain body where "g = lit @ body" "body \<noteq> []" "c \<notin> set body"
    by blast
  then have "g \<noteq> []" and "last g \<noteq> c"
    using last_in_set by fastforce+
  then show ?thesis
    by (simp add: endswith_def suffix_single)
qed

lemma new_params_no_double:
  assumes "\<not> endswith params '')''"
    and "endswith params ('','' @ [NL]) \<or> \<not> separator_terminated params"
    and "\<not> double_separator params"
  shows "\<not> double_separator (new_params params)"
proof (cases "endswith params ('','' @ [NL])")
  case True
  then have "new_params params = params @ param_comma_nl"
    by (simp add: new_params_def)
  moreover have "\<not> double_separator param_comma_nl"
    by (simp add: param_comma_nl_def is_space_def)
  moreover have "\<not> prefix '','' (dropWhile is_space param_comma_nl)"
    by (simp add: param_comma_nl_def is_space_def)
  ultimately show ?thesis
    using assms(3) by (simp only: double_separator_append) simp
next
  case False
  with assms(2) have nt: "\<not> separator_terminated params"
    by simp
  from False assms(1) have "new_params params = params @ param_plain"
    by (simp add: new_params_def)
  moreover have "\<not> double_separator param_plain"
    by (simp add: param_plain_def is_space_def)
  ultimately show ?thesis
    using assms(3) nt by (simp only: double_separator_append) simp
qed

section \<open>Healthcheck blocks\<close>

lemma split_at_first:
  assumes "xs @ a # r = xs' @ a # r'" and "a \<notin> set xs" and "a \<notin> set xs'"
  shows "xs = xs' \<and> r = r'"
proof -
  have "takeWhile (\<lambda>x. x \<noteq> a) (xs @ a # r) = xs" "takeWhile (\<lambda>x. x \<noteq> a) (xs' @ a # r') = xs'"
    using assms(2,3) by (simp_all add: takeWhile_until)
  with assms(1) have "xs = xs'" by simp
  with assms(1) show ?thesis by simp
qed

lemma takeWhile_space_run:
  assumes "\<forall>z \<in> set ws. is_space z" and "\<not> is_space y"
  shows "takeWhile is_space (ws @ y # r) = ws" and "dropWhile is_space (ws @ y # r) = y # r"
  using assms by (induction ws) auto

lemma hc_block_at_SomeD:
  assumes "hc_block_at s = Some g"
  shows "\<exists>body ws rest.
           s = hc_lit @ body @ CHR '']'' # NL # ws @ ''interval: 10s'' @ rest
         \<and> CHR '']'' \<notin> set body \<and> ws \<noteq> [] \<and> (\<forall>z \<in> set ws. is_space z)
         \<and> g = hc_lit @ body @ CHR '']'' # NL # ws @ ''interval: 10s''"
proof -
  let ?P = "\<lambda>x. x \<noteq> CHR '']''"
  from assms obtain r where s: "s = hc_lit @ r"
    by (auto simp: hc_block_at_def prefix_def split: if_splits)
  let ?body = "takeWhile ?P r"
  let ?r1 = "dropWhile ?P r"
  from assms s have p1: "prefix ('']'' @ [NL]) ?r1"
    by (auto simp: hc_block_at_def Let_def split: if_splits)
  then obtain t where r1: "?r1 = CHR '']'' # NL # t"
    by (auto simp: prefix_def)
  let ?ws = "takeWhile is_space t"
  let ?r2 = "dropWhile is_space t"
  from assms s r1 have ws: "?ws \<noteq> []" and p2: "prefix ''interval: 10s'' ?r2"
    and g: "g = hc_lit @ ?body @ '']'' @ [NL] @ ?ws @ ''interval: 10s''"
    by (auto simp: hc_block_at_def Let_def split: if_splits)
  from p2 obtain rest where r2: "?r2 = ''interval: 10s'' @ rest"
    by (auto simp: prefix_def)
  have "r = ?body @ ?r1" by simp
  also have "\<dots> = ?body @ CHR '']'' # NL # ?ws @ ?r2"
    by (simp add: r1)
  finally have "s = hc_lit @ ?body @ CHR '']'' # NL # ?ws @ ''interval: 10s'' @ rest"
    using s r2 by simp
  moreover have "CHR '']'' \<notin> set ?body"
    by (auto dest: set_takeWhileD)
  moreover have "\<forall>z \<in> set ?ws. is_space z"
    by (auto dest: set_takeWhileD)
  ultimately show ?thesis
    using ws g by auto
qed

lemma hc_block_at_prefix:
  assumes "hc_block_at s = Some g"
  shows "prefix g s" and "g \<noteq> []"
  using hc_block_at_SomeD [OF assms] by (auto simp: prefix_def hc_lit_def)










lemma fix_healthchecks_examples:
  \<open>fix_healthchecks
     (''test: ["CMD", "wget", "-q", "http://localhost:8080/healthz"]'' @ [NL]
      @ ''      interval: 10s'' @ [NL] @ ''      retries: 3'')
   = ''test: ["CMD", "wget", "-q", "http://localhost:8080/healthz"]'' @ [NL]
      @ ''      interval: 10s'' @ [NL] @ ''      start_period: 30s'' @ [NL] @ ''      retries: 3''\<close>
  \<open>fix_healthchecks
     (''test: ["CMD", "wget", "-q", "http://localhost:8080/healthz"]'' @ [NL]
      @ ''      interval: 10s'' @ [NL] @ ''      start_period: 30s'')
   = ''test: ["CMD", "wget", "-q", "http://localhost:8080/healthz"]'' @ [NL]
      @ ''      interval: 10s'' @ [NL] @ ''      start_period: 30s''\<close>
  by code_simp+

section \<open>Idempotence of the rules\<close>

lemma todo_match_at_SomeD:
  assumes "todo_match_at t = Some m"
  shows "\<exists>ws rest. t = m @ rest \<and> m = todo_head @ ws @ todo_fallback
           \<and> (\<forall>z \<in> set ws. is_space z) \<and> NL \<in> set ws"
proof -
  from assms obtain r where t: "t = todo_head @ r"
    by (auto simp: todo_match_at_def prefix_def split: if_splits)
  let ?ws = "takeWhile is_space r"
  let ?r1 = "dropWhile is_space r"
  from assms t have nl: "NL \<in> set ?ws" and p: "prefix todo_fallback ?r1"
    and m: "m = todo_head @ ?ws @ todo_fallback"
    by (auto simp: todo_match_at_def Let_def split: if_splits)
  from p obtain rest where r1: "?r1 = todo_fallback @ rest"
    by (auto simp: prefix_def)
  have "r = ?ws @ ?r1" by simp
  with r1 t m have "t = m @ rest" by simp
  moreover have "\<forall>z \<in> set ?ws. is_space z"
    by (auto dest: set_takeWhileD)
  ultimately show ?thesis
    using m nl by blast
qed

lemma not_space_r: "\<not> is_space (CHR ''r'')"
  by (simp add: is_space_def)

lemma not_space_h: "\<not> is_space (CHR ''h'')"
  by (simp add: is_space_def)

lemma todo_match_at_SomeI:
  assumes "\<forall>z \<in> set ws. is_space z" and "NL \<in> set ws"
  shows "todo_match_at ((todo_head @ ws @ todo_fallback) @ rest) = Some (todo_head @ ws @ todo_fallback)"
proof -
  obtain f where f: "todo_fallback = CHR ''r'' # f"
    by (simp add: todo_fallback_def)
  have "takeWhile is_space (ws @ todo_fallback @ rest) = ws"
    unfolding f append_Cons by (rule takeWhile_space_run(1) [OF assms(1) not_space_r])
  moreover have "dropWhile is_space (ws @ todo_fallback @ rest) = todo_fallback @ rest"
    unfolding f append_Cons by (rule takeWhile_space_run(2) [OF assms(1) not_space_r])
  ultimately have "takeWhile is_space (ws @ todo_fallback @ rest) = ws"
       "dropWhile is_space (ws @ todo_fallback @ rest) = todo_fallback @ rest"
    by blast+
  then show ?thesis
    using assms(2) by (simp add: todo_match_at_def)
qed

lemma todo_match_at_prefix_eq:
  assumes "todo_match_at t = Some m" and "prefix m t'"
  shows "todo_match_at t' = Some m"
proof -
  from todo_match_at_SomeD [OF assms(1)] obtain ws where m: "m = todo_head @ ws @ todo_fallback"
    and ws: "\<forall>z \<in> set ws. is_space z" "NL \<in> set ws"
    by blast
  from assms(2) obtain rest' where "t' = m @ rest'"
    by (auto simp: prefix_def)
  with m todo_match_at_SomeI [OF ws] show ?thesis by simp
qed

lemma todo_match_no_h:
  assumes "todo_match_at t = Some m"
  shows "CHR ''h'' \<notin> set m"
proof -
  from todo_match_at_SomeD [OF assms] obtain ws where m: "m = todo_head @ ws @ todo_fallback"
    and ws: "\<forall>z \<in> set ws. is_space z"
    by blast
  have "CHR ''h'' \<notin> set todo_head" "CHR ''h'' \<notin> set todo_fallback"
    by (simp_all add: todo_head_def todo_fallback_def)
  moreover have "CHR ''h'' \<notin> set ws"
    using ws not_space_h by blast
  ultimately show ?thesis
    using m by simp
qed

lemma todo_match_at_slash:
  assumes "t = [] \<or> hd t \<noteq> CHR ''/''"
  shows "todo_match_at t = None"
  using assms by (cases t) (auto simp: todo_match_at_def todo_head_def)

lemma todo_repl_no_slash: "CHR ''/'' \<notin> set todo_repl"
  by (simp add: todo_repl_def todo_fallback_def)

lemma todo_pending_append:
  assumes "CHR ''/'' \<notin> set a"
  shows "todo_pending (a @ b) = todo_pending b"
  using assms by (induction a) (auto simp: todo_match_at_slash)

lemma prefix_before_char:
  assumes "prefix m (u @ a # v)" and "a \<notin> set m"
  shows "prefix m u"
proof -
  from assms(1) have "prefix m u \<or> (\<exists>w. m = u @ w \<and> prefix w (a # v) \<and> w \<noteq> [])"
    by (auto simp: prefix_append)
  moreover have False if "m = u @ w" "prefix w (a # v)" "w \<noteq> []" for w
    using that assms(2) by (cases w) auto
  ultimately show ?thesis by blast
qed

lemma replace_todos_first_change:
  "replace_todos s = s \<or> (\<exists>p q. prefix p s \<and> replace_todos s = p @ CHR ''h'' # q)"
proof (induction s rule: replace_todos.induct)
  case 1
  show ?case by simp
next
  case (2 x xs)
  show ?case
  proof (cases "todo_match_at (x # xs)")
    case (Some m)
    obtain q where "todo_repl = CHR ''h'' # q"
      by (simp add: todo_repl_def)
    with Some have "replace_todos (x # xs) = [] @ CHR ''h'' # (q @ replace_todos (drop (length m) (x # xs)))"
      by simp
    then show ?thesis
      using Nil_prefix by blast
  next
    case None
    from "2.IH"(1) [OF None] consider "replace_todos xs = xs"
      | p q where "prefix p xs" "replace_todos xs = p @ CHR ''h'' # q"
      by blast
    then show ?thesis
    proof cases
      case 1
      with None show ?thesis by simp
    next
      case 2
      with None have "prefix (x # p) (x # xs)" "replace_todos (x # xs) = (x # p) @ CHR ''h'' # q"
        by simp_all
      then show ?thesis by blast
    qed
  qed
qed

lemma todo_no_new_match:
  assumes "todo_match_at (x # xs) = None"
  shows "todo_match_at (x # replace_todos xs) = None"
proof (cases "todo_match_at (x # replace_todos xs)")
  case None
  then show ?thesis .
next
  case (Some m)
  from todo_match_at_SomeD [OF Some] have pm: "prefix m (x # replace_todos xs)"
    by (auto simp: prefix_def)
  have "prefix m (x # xs)"
  proof -
    from replace_todos_first_change [of xs] consider "replace_todos xs = xs"
      | p q where "prefix p xs" "replace_todos xs = p @ CHR ''h'' # q"
      by blast
    then show ?thesis
    proof cases
      case 1
      with pm show ?thesis by simp
    next
      case 2
      with pm have "prefix m ((x # p) @ CHR ''h'' # q)" by simp
      from prefix_before_char [OF this todo_match_no_h [OF Some]] have "prefix m (x # p)" .
      also have "prefix (x # p) (x # xs)"
        using 2(1) by simp
      finally show ?thesis .
    qed
  qed
  from todo_match_at_prefix_eq [OF Some this] assms show ?thesis by simp
qed

lemma replace_todos_done: "\<not> todo_pending (replace_todos s)"
proof (induction s rule: replace_todos.induct)
  case 1
  show ?case by simp
next
  case (2 x xs)
  show ?case
  proof (cases "todo_match_at (x # xs)")
    case (Some m)
    with "2.IH"(2) [OF Some] show ?thesis
      by (simp add: todo_pending_append [OF todo_repl_no_slash])
  next
    case None
    with "2.IH"(1) [OF None] todo_no_new_match [OF None] show ?thesis by simp
  qed
qed

lemma replace_todos_fixed: "\<not> todo_pending s \<Longrightarrow> replace_todos s = s"
  by (induction s) auto

lemma replace_todos_idem: "replace_todos (replace_todos s) = replace_todos s"
  by (rule replace_todos_fixed) (rule replace_todos_done)

lemma py_replace_present:
  assumes "old \<noteq> []" and "py_in old s"
  shows "py_in new (py_replace old new s)"
  using assms(2)
proof (induction s)
  case Nil
  with assms(1) show ?case by simp
next
  case (Cons x xs)
  show ?case
  proof (cases "prefix old (x # xs)")
    case True
    with assms(1) have "py_replace old new (x # xs) = new @ py_replace old new (drop (length old) (x # xs))"
      by simp
    then show ?thesis
      by (simp add: py_in_sublist)
  next
    case False
    with Cons.prems have "py_in old xs" by simp
    from Cons.IH [OF this] False assms(1) show ?thesis
      by (simp add: py_in_sublist sublist_Cons_right)
  qed
qed

lemma add_import_idem: "add_import (add_import c) = add_import c"
proof (cases "py_in ''log/slog'' c \<or> \<not> py_in import_anchor c")
  case True
  then have "add_import c = c"
    by (auto simp: add_import_def py_replace_absent import_anchor_def)
  then show ?thesis by simp
next
  case False
  have ne: "import_anchor \<noteq> []"
    by (simp add: import_anchor_def)
  from False have c': "add_import c = py_replace import_anchor import_new c"
    by (simp add: add_import_def)
  from False have "py_in import_new (add_import c)"
    unfolding c' by (intro py_replace_present [OF ne]) simp
  moreover have "py_in ''log/slog'' import_new"
    by code_simp
  ultimately have "py_in ''log/slog'' (add_import c)"
    by (rule py_in_trans [rotated])
  then show ?thesis
    by (simp add: add_import_def [of "add_import c"])
qed

lemma span_at_iff:
  "(span_at lit c [c] t \<noteq> None)
     = (\<exists>body. body \<noteq> [] \<and> c \<notin> set body \<and> prefix (lit @ body @ [c]) t)"
proof
  assume "span_at lit c [c] t \<noteq> None"
  then obtain g where "span_at lit c [c] t = Some g" by auto
  from span_at_SomeD [OF this] obtain body rest where
    "t = lit @ body @ rest" "body \<noteq> []" "c \<notin> set body" "prefix [c] rest"
    by blast
  then show "\<exists>body. body \<noteq> [] \<and> c \<notin> set body \<and> prefix (lit @ body @ [c]) t"
    by (auto simp: prefix_def)
next
  assume "\<exists>body. body \<noteq> [] \<and> c \<notin> set body \<and> prefix (lit @ body @ [c]) t"
  then obtain body r where "body \<noteq> []" "c \<notin> set body" "t = lit @ body @ c # r"
    by (auto simp: prefix_def)
  then show "span_at lit c [c] t \<noteq> None"
    using span_at_SomeI [of c body "[c]" r lit] by simp
qed

lemma prefix_to_first:
  assumes "prefix (m @ [c]) (u @ v)" and "c \<notin> set m" and "c \<in> set u"
  shows "prefix (m @ [c]) u"
proof -
  from assms(3) obtain u1 u2 where u: "u = u1 @ c # u2" and n: "c \<notin> set u1"
    by (auto dest: split_list_first)
  from assms(1) obtain z where "m @ c # z = u1 @ c # (u2 @ v)"
    by (auto simp: prefix_def u)
  from split_at_first [OF this assms(2) n] have "m = u1" by simp
  then show ?thesis
    by (simp add: u)
qed

lemma re_search_after_insert:
  assumes "re_search lit c [c] (before @ g @ c # r) = Some (before, g)"
    and "c \<notin> set lit" and "c \<notin> set ins"
  shows "re_search lit c [c] (before @ (g @ ins) @ c # r') = Some (before, g @ ins)"
proof -
  let ?s = "before @ g @ c # r"
  let ?s' = "before @ (g @ ins) @ c # r'"
  from re_search_SomeD [OF assms(1)] obtain rest where eq: "?s = before @ g @ rest"
    and sp: "span_at lit c [c] (g @ rest) = Some g"
    and no: "\<forall>i < length before. span_at lit c [c] (drop i ?s) = None"
    by blast
  from span_at_SomeD [OF sp] obtain body where g: "g = lit @ body" and ne: "body \<noteq> []"
    and nc: "c \<notin> set body"
    by auto
  have cg: "c \<notin> set (g @ ins)"
    using g nc assms(2,3) by simp
  have 1: "span_at lit c [c] ((g @ ins) @ c # r') = Some (g @ ins)"
    using span_at_SomeI [of c "body @ ins" "[c]" r' lit] g ne nc assms(3) by simp
  have 2: "\<forall>i < length before. span_at lit c [c] (drop i ?s') = None"
  proof (intro allI impI)
    fix i assume i: "i < length before"
    let ?u = "drop i before"
    have ds: "drop i ?s = ?u @ g @ c # r" and ds': "drop i ?s' = ?u @ (g @ ins) @ c # r'"
      using i by simp_all
    have une: "?u \<noteq> []"
      using i by simp
    show "span_at lit c [c] (drop i ?s') = None"
    proof (rule ccontr)
      assume "span_at lit c [c] (drop i ?s') \<noteq> None"
      then obtain b1 where b1: "b1 \<noteq> []" "c \<notin> set b1" and p0: "prefix (lit @ b1 @ [c]) (drop i ?s')"
        unfolding span_at_iff by blast
      from p0 have p: "prefix (lit @ b1 @ [c]) (?u @ (g @ ins) @ c # r')"
        by (simp only: ds')
      have cm: "c \<notin> set (lit @ b1)"
        using assms(2) b1(2) by simp
      have "span_at lit c [c] (drop i ?s) \<noteq> None"
      proof (cases "c \<in> set ?u")
        case True
        from p have "prefix ((lit @ b1) @ [c]) (?u @ ((g @ ins) @ c # r'))"
          by simp
        from prefix_to_first [OF this cm True] have "prefix (lit @ b1 @ [c]) ?u"
          by simp
        then have "prefix (lit @ b1 @ [c]) (drop i ?s)"
          unfolding ds by (rule prefix_prefix)
        with b1 show ?thesis
          unfolding span_at_iff by blast
      next
        case False
        from p obtain z where ez: "(lit @ b1) @ c # z = (?u @ g @ ins) @ c # r'"
          by (auto simp: prefix_def)
        have nu: "c \<notin> set (?u @ g @ ins)"
          using False cg by simp
        from split_at_first [OF ez cm nu] have m: "lit @ b1 = ?u @ g @ ins"
          by (rule conjunct1)
        define w where "w = ?u @ g"
        have m': "lit @ b1 = w @ ins"
          using m by (simp add: w_def)
        have len: "length lit < length w"
          using une g by (simp add: w_def)
        have "lit = take (length lit) (lit @ b1)"
          by simp
        also have "\<dots> = take (length lit) (w @ ins)"
          by (simp only: m')
        also have "\<dots> = take (length lit) w"
          using len by simp
        finally have "lit = take (length lit) w" .
        then have "w = lit @ drop (length lit) w"
          by (metis append_take_drop_id)
        then obtain b0 where b0: "w = lit @ b0"
          by blast
        with len have "b0 \<noteq> []"
          by auto
        moreover have "c \<notin> set b0"
        proof -
          have "c \<notin> set w"
            using False cg by (simp add: w_def)
          then show ?thesis
            by (simp add: b0)
        qed
        moreover have "prefix (lit @ b0 @ [c]) (drop i ?s)"
        proof -
          have "drop i ?s = w @ c # r"
            by (simp only: ds w_def append_assoc)
          also have "\<dots> = (lit @ b0 @ [c]) @ r"
            by (simp add: b0)
          finally show ?thesis
            by (simp only: prefixI)
        qed
        ultimately show ?thesis
          unfolding span_at_iff by blast
      qed
      with no i show False by simp
    qed
  qed
  from re_search_SomeI [OF 1, of before] 2 show ?thesis
    by simp
qed

lemma field_line_logger: "py_in ''logger'' field_line"
  by code_simp

lemma py_in_append_right: "py_in sub b \<Longrightarrow> py_in sub (a @ b)"
  by (auto simp: py_in_sublist sublist_def) (metis append.assoc)

lemma add_field_idem:
  assumes "CHR ''}'' \<notin> set handler"
  shows "add_field handler (add_field handler c) = add_field handler c"
proof -
  let ?lit = "''type '' @ handler @ '' struct {''"
  let ?c = "CHR ''}''"
  show ?thesis
  proof (cases "re_search ?lit ?c ''}'' c")
    case None
    then have "add_field handler c = c"
      by (simp add: add_field_def)
    then show ?thesis by simp
  next
    case (Some bg)
    obtain before g where bg: "bg = (before, g)"
      by (cases bg)
    note s = Some [unfolded bg]
    show ?thesis
    proof (cases "py_in ''logger'' g")
      case True
      with s have "add_field handler c = c"
        by (simp add: add_field_def)
      then show ?thesis by simp
    next
      case False
      have nl: "?c \<notin> set ?lit"
        using assms by simp
      from re_search_SomeD [OF s] obtain rest where c: "c = before @ g @ rest"
        and sp: "span_at ?lit ?c ''}'' (g @ rest) = Some g"
        by blast
      from span_at_SomeD [OF sp] obtain body rest' where gr: "g @ rest = ?lit @ body @ rest'"
        and g: "g = ?lit @ body" and pr: "prefix ''}'' rest'"
        by blast
      from gr g have "rest = rest'" by simp
      with pr obtain r where rest: "rest = ?c # r"
        by (cases rest) auto
      have gne: "g \<noteq> []" and hg: "hd g = CHR ''t''"
        using g by simp_all
      have np: "\<not> prefix g (?c # r)"
        using gne hg by (cases g) auto
      have "add_field handler c = py_replace g (g @ field_line) c"
        using s False py_in_logger_star py_in_tab_logger by (auto simp: add_field_def)
      also have "\<dots> = before @ (g @ field_line)
                    @ py_replace g (g @ field_line) (drop (length before + length g) c)"
        using s py_replace_first_match [of ?lit ?c c before g] by simp
      also have "drop (length before + length g) c = ?c # r"
        using c rest by simp
      also have "py_replace g (g @ field_line) (?c # r) = ?c # py_replace g (g @ field_line) r"
        using np gne by simp
      finally have c': "add_field handler c
                          = before @ (g @ field_line) @ ?c # py_replace g (g @ field_line) r" .
      have "?c \<notin> set field_line"
        by (simp add: field_line_def)
      with s nl have "re_search ?lit ?c [?c] (before @ (g @ field_line) @ ?c # py_replace g (g @ field_line) r)
                        = Some (before, g @ field_line)"
        unfolding c rest by (intro re_search_after_insert) simp_all
      moreover have "py_in ''logger'' (g @ field_line)"
        using field_line_logger by (rule py_in_append_right)
      ultimately show ?thesis
        unfolding c' by (simp add: add_field_def)
    qed
  qed
qed

lemma add_import_fixed: "import_ok c \<Longrightarrow> add_import c = c"
  by (auto simp: import_ok_def add_import_def py_replace_absent import_anchor_def)

lemma add_field_fixed: "field_ok h c \<Longrightarrow> add_field h c = c"
  by (auto simp: field_ok_def add_field_def split: option.splits)

lemma add_param_fixed: "param_ok h c \<Longrightarrow> add_param h c = c"
  by (auto simp: param_ok_def add_param_def split: option.splits)

lemma postconditions_fixed:
  assumes "postconditions c"
  shows "update_handler_content c = c"
proof -
  from assms have 1: "add_import c = c" and 2: "replace_todos c = c"
    by (simp_all add: postconditions_def add_import_fixed replace_todos_fixed)
  from assms have 3: "fold add_field handlers c = c"
    by (intro fold_absent add_field_fixed) (simp add: postconditions_def list_all_iff)
  from assms have 4: "fold add_param handlers c = c"
    by (intro fold_absent add_param_fixed) (simp add: postconditions_def list_all_iff)
  show ?thesis
    by (simp add: update_handler_content_def 1 2 3 4)
qed

subsection \<open>The healthcheck patch, block by block\<close>








section \<open>Idempotence on contents with unique spans\<close>

subsection \<open>The check of a pattern around an insertion\<close>

lemma py_in_middle: "py_in x b \<Longrightarrow> py_in x (a @ b @ c)"
  by (auto simp: py_in_sublist sublist_def) (metis append.assoc)

lemma prefix_before_insert:
  assumes "prefix m (a @ ins @ z)" and "ins \<noteq> []" and "hd ins \<notin> set m"
  shows "prefix m a"
proof -
  from assms(2) obtain y ys where ins: "ins = y # ys"
    by (cases ins) auto
  with assms(1) have "prefix m (a @ y # (ys @ z))"
    by simp
  moreover from assms(3) ins have "y \<notin> set m"
    by simp
  ultimately show ?thesis
    by (rule prefix_before_char)
qed

lemma first_char_split:
  assumes "a @ w = body @ c # rest" and "c \<notin> set a" and "c \<notin> set body"
  shows "\<exists>b2. w = b2 @ c # rest \<and> body = a @ b2 \<and> c \<notin> set b2"
proof -
  have "c \<in> set (a @ w)"
    by (simp add: assms(1))
  with assms(2) have "c \<in> set w"
    by simp
  then obtain b2 w2 where w: "w = b2 @ c # w2" and nb: "c \<notin> set b2"
    by (auto dest: split_list_first)
  from assms(1) w have "(a @ b2) @ c # w2 = body @ c # rest"
    by simp
  moreover have "c \<notin> set (a @ b2)"
    using assms(2) nb by simp
  ultimately have "a @ b2 = body \<and> w2 = rest"
    using assms(3) by (rule split_at_first)
  with w nb show ?thesis
    by auto
qed

lemma span_at_insert_keeps:
  assumes "fits lit c t' ins k" and "span_at lit c (c # t') (u @ k # v) = Some g"
  shows "\<exists>g'. span_at lit c (c # t') (u @ ins @ k # v) = Some g'"
proof -
  from assms(1) have kl: "k \<notin> set lit" and kt: "k \<notin> set t'" and ci: "c \<notin> set ins"
    and ine: "ins \<noteq> []"
    by (simp_all add: fits_def)
  from span_at_SomeD [OF assms(2)] obtain body rest where
    s: "u @ k # v = lit @ body @ rest" and bne: "body \<noteq> []" and cb: "c \<notin> set body"
    and pt: "prefix (c # t') rest"
    by blast
  from pt obtain rest1 where rest: "rest = c # rest1" and pt1: "prefix t' rest1"
    by (cases rest) auto
  have "prefix lit (u @ k # v)"
    by (simp add: s)
  from prefix_before_char [OF this kl] obtain u' where u: "u = lit @ u'"
    by (auto simp: prefix_def)
  from s u rest have e: "u' @ k # v = body @ c # rest1"
    by simp
  show ?thesis
  proof (cases "c \<in> set u'")
    case True
    then obtain r1 r2 where u': "u' = r1 @ c # r2" and cr: "c \<notin> set r1"
      by (auto dest: split_list_first)
    from e u' have "r1 @ c # (r2 @ k # v) = body @ c # rest1"
      by simp
    from split_at_first [OF this cr cb] have r1: "r1 = body" and r: "rest1 = r2 @ k # v"
      by simp_all
    from pt1 r have "prefix t' (r2 @ k # v)"
      by simp
    from prefix_before_char [OF this kt] have "prefix t' r2" .
    then have "prefix (c # t') (c # (r2 @ ins @ k # v))"
      by (simp add: prefix_prefix)
    from span_at_SomeI [OF cr _ this, of lit] bne r1
    have "span_at lit c (c # t') (lit @ r1 @ c # (r2 @ ins @ k # v)) = Some (lit @ r1)"
      by simp
    then show ?thesis
      by (simp add: u u')
  next
    case False
    from first_char_split [OF e False cb] obtain b2 where
      w: "k # v = b2 @ c # rest1" and b: "body = u' @ b2" and cb2: "c \<notin> set b2"
      by blast
    have n: "c \<notin> set (u' @ ins @ b2)"
      using False ci cb2 by simp
    have ne: "u' @ ins @ b2 \<noteq> []"
      using ine by simp
    have "prefix (c # t') (c # rest1)"
      using pt1 by simp
    from span_at_SomeI [OF n ne this, of lit]
    have "span_at lit c (c # t') (lit @ (u' @ ins @ b2) @ c # rest1) = Some (lit @ u' @ ins @ b2)"
      by simp
    moreover have "u @ ins @ k # v = lit @ (u' @ ins @ b2) @ c # rest1"
      using u w by simp
    ultimately show ?thesis
      by simp
  qed
qed

lemma span_at_insert_new:
  assumes "fits lit c t' ins k" and "span_at lit c (c # t') (u @ ins @ k # v) = Some g'"
  shows "py_in ''logger'' g' \<or> span_at lit c (c # t') (u @ k # v) = Some g'"
proof -
  from assms(1) have ci: "c \<notin> set ins" and ine: "ins \<noteq> []" and hl: "hd ins \<notin> set lit"
    and ht: "hd ins \<notin> set t'" and lg: "py_in ''logger'' ins"
    by (simp_all add: fits_def)
  from span_at_SomeD [OF assms(2)] obtain body rest where
    s: "u @ ins @ k # v = lit @ body @ rest" and g': "g' = lit @ body" and bne: "body \<noteq> []"
    and cb: "c \<notin> set body" and pt: "prefix (c # t') rest"
    by blast
  from pt obtain rest1 where rest: "rest = c # rest1" and pt1: "prefix t' rest1"
    by (cases rest) auto
  have "prefix lit (u @ ins @ k # v)"
    by (simp add: s)
  from prefix_before_insert [OF this ine hl] obtain u' where u: "u = lit @ u'"
    by (auto simp: prefix_def)
  from s u rest have e: "u' @ ins @ k # v = body @ c # rest1"
    by simp
  show ?thesis
  proof (cases "c \<in> set u'")
    case True
    then obtain r1 r2 where u': "u' = r1 @ c # r2" and cr: "c \<notin> set r1"
      by (auto dest: split_list_first)
    from e u' have "r1 @ c # (r2 @ ins @ k # v) = body @ c # rest1"
      by simp
    from split_at_first [OF this cr cb] have r1: "r1 = body" and r: "rest1 = r2 @ ins @ k # v"
      by simp_all
    from pt1 r have "prefix t' (r2 @ ins @ k # v)"
      by simp
    from prefix_before_insert [OF this ine ht] have "prefix t' r2" .
    then have "prefix (c # t') (c # (r2 @ k # v))"
      by (simp add: prefix_prefix)
    from span_at_SomeI [OF cr _ this, of lit] bne r1
    have "span_at lit c (c # t') (lit @ r1 @ c # (r2 @ k # v)) = Some (lit @ r1)"
      by simp
    then have "span_at lit c (c # t') (u @ k # v) = Some g'"
      by (simp add: u u' g' r1)
    then show ?thesis ..
  next
    case False
    have n: "c \<notin> set (u' @ ins)"
      using False ci by simp
    from e have "(u' @ ins) @ k # v = body @ c # rest1"
      by simp
    from first_char_split [OF this n cb] obtain b2 where b: "body = (u' @ ins) @ b2"
      by blast
    have "py_in ''logger'' ((lit @ u') @ ins @ b2)"
      using lg by (rule py_in_middle)
    then have "py_in ''logger'' g'"
      by (simp add: g' b)
    then show ?thesis ..
  qed
qed

lemma logger_found_Nil: "logger_found lit c tail []"
  by (simp add: logger_found_def)

lemma logger_found_Some:
  "span_at lit c tail (x # xs) = Some g \<Longrightarrow> logger_found lit c tail (x # xs) = py_in ''logger'' g"
  by (simp add: logger_found_def)

lemma logger_found_None:
  "span_at lit c tail (x # xs) = None
     \<Longrightarrow> logger_found lit c tail (x # xs) = logger_found lit c tail xs"
  by (cases "re_search lit c tail xs") (auto simp: logger_found_def)

lemma prefix_last_in:
  assumes "prefix m a" and "m \<noteq> []"
  shows "last m \<in> set a"
proof -
  from assms(1) have "set m \<subseteq> set a"
    by (rule set_mono_prefix)
  moreover from assms(2) have "last m \<in> set m"
    by simp
  ultimately show ?thesis ..
qed

lemma no_span_inside_insert:
  assumes "fits lit c t' ins k" and "set (y # i3) \<subseteq> set ins"
  shows "span_at lit c tail ((y # i3) @ k # v) = None"
proof -
  from assms(1) have lne: "lit \<noteq> []" and kl: "k \<notin> set lit" and ll: "last lit \<notin> set ins"
    by (simp_all add: fits_def)
  have "\<not> prefix lit ((y # i3) @ k # v)"
  proof
    assume "prefix lit ((y # i3) @ k # v)"
    from prefix_before_char [OF this kl] have "prefix lit (y # i3)" .
    from prefix_last_in [OF this lne] assms(2) ll show False
      by blast
  qed
  then show ?thesis
    by (simp add: span_at_def)
qed

lemma logger_found_skip_insert:
  assumes "fits lit c t' ins k" and "set i2 \<subseteq> set ins"
  shows "logger_found lit c tail (i2 @ k # v) = logger_found lit c tail (k # v)"
  using assms(2)
proof (induction i2)
  case Nil
  show ?case by simp
next
  case (Cons y i3)
  from no_span_inside_insert [OF assms(1) Cons.prems]
  have "span_at lit c tail (y # (i3 @ k # v)) = None"
    by simp
  from logger_found_None [OF this] Cons show ?case
    by simp
qed

lemma logger_found_insert:
  assumes "fits lit c t' ins k" and "logger_found lit c (c # t') (u @ k # v)"
  shows "logger_found lit c (c # t') (u @ ins @ k # v)"
  using assms(2)
proof (induction u)
  case Nil
  with logger_found_skip_insert [OF assms(1), of ins] show ?case
    by simp
next
  case (Cons y u1)
  show ?case
  proof (cases "span_at lit c (c # t') ((y # u1) @ ins @ k # v)")
    case (Some g')
    from span_at_insert_new [OF assms(1) Some]
    have "py_in ''logger'' g'"
    proof
      assume "py_in ''logger'' g'"
      then show ?thesis .
    next
      assume "span_at lit c (c # t') ((y # u1) @ k # v) = Some g'"
      then have "span_at lit c (c # t') (y # (u1 @ k # v)) = Some g'"
        by simp
      from logger_found_Some [OF this] Cons.prems show ?thesis
        by simp
    qed
    moreover from Some have "span_at lit c (c # t') (y # (u1 @ ins @ k # v)) = Some g'"
      by simp
    ultimately show ?thesis
      using logger_found_Some by simp
  next
    case None
    have n: "span_at lit c (c # t') ((y # u1) @ k # v) = None"
    proof (cases "span_at lit c (c # t') ((y # u1) @ k # v)")
      case None
      then show ?thesis .
    next
      case (Some g)
      from span_at_insert_keeps [OF assms(1) Some] None show ?thesis
        by simp
    qed
    then have "span_at lit c (c # t') (y # (u1 @ k # v)) = None"
      by simp
    from logger_found_None [OF this] Cons.prems have "logger_found lit c (c # t') (u1 @ k # v)"
      by simp
    then have "logger_found lit c (c # t') (u1 @ ins @ k # v)"
      by (rule Cons.IH)
    moreover from None have "span_at lit c (c # t') (y # (u1 @ ins @ k # v)) = None"
      by simp
    ultimately show ?thesis
      using logger_found_None by simp
  qed
qed

lemma logger_found_own_insert_aux:
  assumes "fits lit c t' ins c"
    and "span_at lit c (c # t') (g @ c # v) = Some g"
    and "\<forall>i < length before. span_at lit c (c # t') (drop i (before @ g @ c # v)) = None"
  shows "logger_found lit c (c # t') (before @ g @ ins @ c # v)"
  using assms(3)
proof (induction before)
  case Nil
  from assms(1) have ci: "c \<notin> set ins" and lg: "py_in ''logger'' ins"
    by (simp_all add: fits_def)
  from span_at_SomeD [OF assms(2)] obtain body rest where
    e: "g @ c # v = lit @ body @ rest" and g: "g = lit @ body" and bne: "body \<noteq> []"
    and cb: "c \<notin> set body" and pt: "prefix (c # t') rest"
    by blast
  from e g have rest: "rest = c # v"
    by simp
  have n: "c \<notin> set (body @ ins)"
    using cb ci by simp
  have ne: "body @ ins \<noteq> []"
    using bne by simp
  from span_at_SomeI [OF n ne, of "c # t'" v lit] pt rest
  have sp: "span_at lit c (c # t') (lit @ (body @ ins) @ c # v) = Some (lit @ body @ ins)"
    by simp
  obtain x xs where xs: "lit @ (body @ ins) @ c # v = x # xs"
    by (cases "lit @ (body @ ins) @ c # v") auto
  from sp have "logger_found lit c (c # t') (x # xs) = py_in ''logger'' (lit @ body @ ins)"
    unfolding xs by (rule logger_found_Some)
  moreover have "py_in ''logger'' ((lit @ body) @ ins @ [])"
    using lg by (rule py_in_middle)
  then have "py_in ''logger'' (lit @ body @ ins)"
    by simp
  ultimately have "logger_found lit c (c # t') (x # xs)"
    by (simp only:)
  then have "logger_found lit c (c # t') (lit @ (body @ ins) @ c # v)"
    by (simp only: xs)
  then show ?case
    by (simp add: g)
next
  case (Cons y b)
  from Cons.prems have 0: "span_at lit c (c # t') ((y # b @ g) @ c # v) = None"
    by force
  have rest: "\<forall>i < length b. span_at lit c (c # t') (drop i (b @ g @ c # v)) = None"
  proof (intro allI impI)
    fix i assume "i < length b"
    then have "Suc i < length (y # b)" by simp
    from Cons.prems [rule_format, OF this]
    show "span_at lit c (c # t') (drop i (b @ g @ c # v)) = None"
      by simp
  qed
  show ?case
  proof (cases "span_at lit c (c # t') ((y # b @ g) @ ins @ c # v)")
    case (Some g')
    from span_at_insert_new [OF assms(1) Some] 0 have "py_in ''logger'' g'"
      by simp
    moreover from Some have "span_at lit c (c # t') (y # (b @ g @ ins @ c # v)) = Some g'"
      by simp
    ultimately show ?thesis
      using logger_found_Some by simp
  next
    case None
    then have "span_at lit c (c # t') (y # (b @ g @ ins @ c # v)) = None"
      by simp
    from logger_found_None [OF this] Cons.IH [OF rest] show ?thesis
      by simp
  qed
qed

lemma logger_found_own_insert:
  assumes "fits lit c t' ins c"
    and "re_search lit c (c # t') d = Some (before, g)"
  shows "\<exists>v. d = before @ g @ c # v \<and> logger_found lit c (c # t') (before @ g @ ins @ c # v)"
proof -
  from re_search_SomeD [OF assms(2)] obtain rest where d: "d = before @ g @ rest"
    and sp: "span_at lit c (c # t') (g @ rest) = Some g"
    and no: "\<forall>i < length before. span_at lit c (c # t') (drop i d) = None"
    by blast
  from span_at_SomeD [OF sp] obtain body rest' where "g @ rest = lit @ body @ rest'"
    "g = lit @ body" "prefix (c # t') rest'"
    by blast
  then obtain v where rest: "rest = c # v"
    by (cases rest) auto
  from logger_found_own_insert_aux [OF assms(1), of g v before] sp no d rest
  have "logger_found lit c (c # t') (before @ g @ ins @ c # v)"
    by simp
  with d rest show ?thesis
    by blast
qed

subsection \<open>Occurrences of a text around an insertion\<close>

lemma sublist_straddle:
  assumes "sublist x (a @ b)"
  shows "sublist x a \<or> sublist x b \<or> (a \<noteq> [] \<and> b \<noteq> [] \<and> last a \<in> set x \<and> hd b \<in> set x)"
proof -
  from assms consider "sublist x a" | "sublist x b"
    | x1 x2 where "x = x1 @ x2" "suffix x1 a" "prefix x2 b"
    by (auto simp: sublist_append)
  then show ?thesis
  proof cases
    case 1
    then show ?thesis by simp
  next
    case 2
    then show ?thesis by simp
  next
    case 3
    show ?thesis
    proof (cases "x1 = [] \<or> x2 = []")
      case True
      with 3 have "prefix x b \<or> suffix x a"
        by auto
      then show ?thesis
        by auto
    next
      case False
      then have n1: "x1 \<noteq> []" and n2: "x2 \<noteq> []"
        by simp_all
      from 3(2) n1 have "a \<noteq> []" "last a = last x1"
        by (auto simp: suffix_def)
      moreover from 3(3) n2 have "b \<noteq> []" "hd b = hd x2"
        by (auto simp: prefix_def)
      moreover have "last x1 \<in> set x" "hd x2 \<in> set x"
        using n1 n2 3(1) by simp_all
      ultimately show ?thesis
        by simp
    qed
  qed
qed

lemma sublist_insert_cases:
  assumes "sublist x (u @ ins @ w)" and "x \<noteq> []"
  shows "sublist x u \<or> sublist x w \<or> hd x \<in> set ins \<or> last x \<in> set ins \<or> sublist ins x"
proof -
  from assms(1) consider "sublist x u" | "sublist x (ins @ w)"
    | x1 x2 where "x = x1 @ x2" "suffix x1 u" "prefix x2 (ins @ w)"
    by (auto simp: sublist_append)
  then show ?thesis
  proof cases
    case 1
    then show ?thesis by simp
  next
    case 2
    then consider "sublist x ins" | "sublist x w"
      | y1 y2 where "x = y1 @ y2" "suffix y1 ins" "prefix y2 w"
      by (auto simp: sublist_append)
    then show ?thesis
    proof cases
      case 1
      from set_mono_sublist [OF this] assms(2) have "hd x \<in> set ins"
        by (cases x) auto
      then show ?thesis by simp
    next
      case 2
      then show ?thesis by simp
    next
      case 3
      show ?thesis
      proof (cases "y1 = []")
        case True
        with 3 have "prefix x w" by simp
        then show ?thesis by auto
      next
        case False
        then have "hd x = hd y1" "hd y1 \<in> set y1"
          using 3(1) by simp_all
        moreover from 3(2) have "set y1 \<subseteq> set ins"
          by (rule set_mono_suffix)
        ultimately show ?thesis by auto
      qed
    qed
  next
    case 3
    show ?thesis
    proof (cases "x2 = []")
      case True
      with 3 have "suffix x u" by simp
      then show ?thesis by auto
    next
      case False
      from 3(3) consider "prefix x2 ins" | x3 where "x2 = ins @ x3"
        by (auto simp: prefix_append)
      then show ?thesis
      proof cases
        case 1
        then have "set x2 \<subseteq> set ins"
          by (rule set_mono_prefix)
        moreover have "last x = last x2" "last x2 \<in> set x2"
          using False 3(1) by simp_all
        ultimately show ?thesis by auto
      next
        case 2
        with 3(1) have "x = x1 @ ins @ x3" by simp
        then have "sublist ins x"
          by (auto simp: sublist_def)
        then show ?thesis by simp
      qed
    qed
  qed
qed

lemma sublist_insert_keeps:
  assumes "sublist x (u @ k # v)" and "k \<notin> set x"
  shows "sublist x (u @ ins @ k # v)"
proof -
  from sublist_straddle [OF assms(1)] assms(2) consider "sublist x u" | "sublist x (k # v)"
    by auto
  then show ?thesis
  proof cases
    case 1
    then obtain ps ss where "u = ps @ x @ ss"
      by (auto simp: sublist_def)
    then have "u @ ins @ k # v = ps @ x @ (ss @ ins @ k # v)"
      by simp
    then show ?thesis
      unfolding sublist_def by blast
  next
    case 2
    then obtain ps ss where "k # v = ps @ x @ ss"
      by (auto simp: sublist_def)
    then have "u @ ins @ k # v = (u @ ins @ ps) @ x @ ss"
      by simp
    then show ?thesis
      unfolding sublist_def by blast
  qed
qed

lemma sublist_insert_absent:
  assumes "\<not> sublist x (u @ w)" and "x \<noteq> []"
    and "hd x \<notin> set ins" and "last x \<notin> set ins" and "\<not> sublist ins x"
  shows "\<not> sublist x (u @ ins @ w)"
proof
  assume "sublist x (u @ ins @ w)"
  from sublist_insert_cases [OF this assms(2)] assms(3-5) have "sublist x u \<or> sublist x w"
    by simp
  then have "sublist x (u @ w)"
    by (auto simp: sublist_append)
  with assms(1) show False ..
qed

subsection \<open>A text that occurs once\<close>

lemma occurrences_zero:
  assumes "g \<noteq> []"
  shows "(occurrences g s = 0) = (\<not> py_in g s)"
  using assms by (induction s) auto

lemma occurrences_at:
  assumes "g \<noteq> []"
  shows "1 \<le> occurrences g (b @ g @ rest)"
proof (induction b)
  case Nil
  from assms obtain y ys where "g @ rest = y # ys"
    by (cases g) auto
  moreover have "prefix g (g @ rest)"
    by simp
  ultimately show ?case
    by simp
next
  case (Cons x b)
  then show ?case
    by simp
qed

lemma occurrences_once:
  assumes "g \<noteq> []" and "occurrences g (b @ g @ rest) = 1"
  shows "(\<forall>i < length b. \<not> prefix g (drop i (b @ g @ rest))) \<and> \<not> py_in g rest"
  using assms(2)
proof (induction b)
  case Nil
  from assms(1) obtain y ys where g: "g = y # ys"
    by (cases g) auto
  with Nil have "occurrences g (ys @ rest) = 0"
    by simp
  then have "\<not> py_in g (ys @ rest)"
    by (simp add: occurrences_zero [OF assms(1)])
  then have "\<not> py_in g rest"
    by (auto simp: py_in_sublist sublist_append)
  then show ?case
    by simp
next
  case (Cons x b)
  from occurrences_at [OF assms(1), of b rest] Cons.prems
  have 0: "\<not> prefix g (x # b @ g @ rest)" and 1: "occurrences g (b @ g @ rest) = 1"
    by (auto split: if_splits)
  from Cons.IH [OF 1] have ih: "\<forall>i < length b. \<not> prefix g (drop i (b @ g @ rest))"
    and r: "\<not> py_in g rest"
    by simp_all
  have "\<not> prefix g (drop i ((x # b) @ g @ rest))" if "i < length (x # b)" for i
  proof (cases i)
    case 0
    with \<open>\<not> prefix g (x # b @ g @ rest)\<close> show ?thesis by simp
  next
    case (Suc j)
    with that ih show ?thesis by simp
  qed
  with r show ?case
    by blast
qed

lemma py_replace_once:
  assumes "g \<noteq> []" and "occurrences g (b @ g @ rest) = 1"
  shows "py_replace g new (b @ g @ rest) = b @ new @ rest"
proof -
  from occurrences_once [OF assms] have n: "\<forall>i < length b. \<not> prefix g (drop i (b @ g @ rest))"
    and r: "\<not> py_in g rest"
    by simp_all
  from py_replace_skip [OF assms(1) n] have "py_replace g new (b @ g @ rest) = b @ py_replace g new (g @ rest)" .
  also have "py_replace g new (g @ rest) = new @ py_replace g new rest"
    using assms(1) by (rule py_replace_at)
  also have "py_replace g new rest = rest"
    using assms(1) r by (rule py_replace_absent)
  finally show ?thesis .
qed

subsection \<open>The inserted texts\<close>

lemma inserted_chars:
  assumes "inserted ins k"
  shows "set ins \<subseteq> {NL, TAB, CHR '' '', CHR '','', CHR '':'', CHR ''*'', CHR ''.'', CHR ''l'', CHR ''o'',
                    CHR ''g'', CHR ''e'', CHR ''r'', CHR ''s'', CHR ''L''}"
  using assms
  by (auto simp: inserted_def field_line_def param_plain_def param_comma_nl_def init_line_def)

lemma inserted_logger:
  assumes "inserted ins k"
  shows "py_in ''logger'' ins"
proof -
  have "py_in ''logger'' field_line" "py_in ''logger'' param_plain"
    "py_in ''logger'' param_comma_nl" "py_in ''logger'' init_line"
    by code_simp+
  with assms show ?thesis
    by (auto simp: inserted_def)
qed

lemma inserted_gg:
  assumes "inserted ins k"
  shows "sublist ''gg'' ins"
proof -
  have "py_in ''gg'' ''logger''"
    by code_simp
  from py_in_trans [OF this inserted_logger [OF assms]] show ?thesis
    by (simp add: py_in_sublist)
qed

lemma inserted_hd:
  assumes "inserted ins k"
  shows "ins \<noteq> [] \<and> (hd ins = NL \<or> hd ins = TAB \<or> hd ins = CHR '','')"
  using assms
  by (auto simp: inserted_def field_line_def param_plain_def param_comma_nl_def init_line_def)

lemma inserted_l:
  assumes "inserted ins k"
  shows "CHR ''l'' \<in> set ins"
  using assms
  by (auto simp: inserted_def field_line_def param_plain_def param_comma_nl_def init_line_def)

subsection \<open>No placeholder comes from an insertion\<close>

lemma todo_pending_suffix:
  assumes "todo_pending t"
  shows "todo_pending (ps @ t)"
  using assms by (induction ps) auto

lemma todo_pending_sublist:
  "todo_pending s
     = (\<exists>ws. (\<forall>z \<in> set ws. is_space z) \<and> NL \<in> set ws \<and> sublist (todo_head @ ws @ todo_fallback) s)"
proof
  assume "todo_pending s"
  then show "\<exists>ws. (\<forall>z \<in> set ws. is_space z) \<and> NL \<in> set ws \<and> sublist (todo_head @ ws @ todo_fallback) s"
  proof (induction s)
    case Nil
    then show ?case by simp
  next
    case (Cons x xs)
    show ?case
    proof (cases "todo_match_at (x # xs)")
      case (Some m)
      from todo_match_at_SomeD [OF Some] obtain ws rest where "x # xs = m @ rest"
        "m = todo_head @ ws @ todo_fallback" "\<forall>z \<in> set ws. is_space z" "NL \<in> set ws"
        by blast
      moreover from this(1) have "sublist m (x # xs)"
        by simp
      ultimately show ?thesis
        by blast
    next
      case None
      with Cons.prems have "todo_pending xs"
        by simp
      from Cons.IH [OF this] obtain ws where ws: "\<forall>z \<in> set ws. is_space z" "NL \<in> set ws"
        and "sublist (todo_head @ ws @ todo_fallback) xs"
        by blast
      from this(3) have "sublist (todo_head @ ws @ todo_fallback) (x # xs)"
        by (simp add: sublist_Cons_right)
      with ws show ?thesis
        by blast
    qed
  qed
next
  assume "\<exists>ws. (\<forall>z \<in> set ws. is_space z) \<and> NL \<in> set ws \<and> sublist (todo_head @ ws @ todo_fallback) s"
  then obtain ws ps ss where ws: "\<forall>z \<in> set ws. is_space z" "NL \<in> set ws"
    and s: "s = ps @ (todo_head @ ws @ todo_fallback) @ ss"
    by (auto simp: sublist_def)
  from todo_match_at_SomeI [OF ws, of ss]
  have m: "todo_match_at ((todo_head @ ws @ todo_fallback) @ ss) = Some (todo_head @ ws @ todo_fallback)" .
  obtain y ys where y: "(todo_head @ ws @ todo_fallback) @ ss = y # ys"
    by (cases "(todo_head @ ws @ todo_fallback) @ ss") (auto simp: todo_head_def)
  from m have "todo_pending (y # ys)"
    unfolding y by simp
  then have "todo_pending ((todo_head @ ws @ todo_fallback) @ ss)"
    by (simp only: y)
  then show "todo_pending s"
    unfolding s by (rule todo_pending_suffix)
qed

lemma not_space_g: "\<not> is_space (CHR ''g'')"
  by (simp add: is_space_def)

lemma not_space_slash: "\<not> is_space (CHR ''/'')"
  by (simp add: is_space_def)

lemma todo_match_no_gg:
  assumes "\<forall>z \<in> set ws. is_space z"
  shows "\<not> sublist ''gg'' (todo_head @ ws @ todo_fallback)"
proof
  assume "sublist ''gg'' (todo_head @ ws @ todo_fallback)"
  from sublist_straddle [OF this] consider "sublist ''gg'' todo_head"
    | "sublist ''gg'' (ws @ todo_fallback)" | "last todo_head \<in> set ''gg''"
    by blast
  then show False
  proof cases
    case 1
    moreover have "\<not> py_in ''gg'' todo_head"
      by code_simp
    ultimately show False
      by (simp add: py_in_sublist)
  next
    case 2
    from set_mono_sublist [OF this] have "CHR ''g'' \<in> set ws \<or> CHR ''g'' \<in> set todo_fallback"
      by auto
    moreover have "CHR ''g'' \<notin> set todo_fallback"
      by (simp add: todo_fallback_def)
    ultimately show False
      using assms not_space_g by blast
  next
    case 3
    then show False
      by (simp add: todo_head_def)
  qed
qed

lemma todo_insert_stable:
  assumes "inserted ins k" and "\<not> todo_pending (u @ w)"
  shows "\<not> todo_pending (u @ ins @ w)"
proof
  assume "todo_pending (u @ ins @ w)"
  then obtain ws where ws: "\<forall>z \<in> set ws. is_space z" "NL \<in> set ws"
    and sub: "sublist (todo_head @ ws @ todo_fallback) (u @ ins @ w)"
    unfolding todo_pending_sublist by blast
  let ?m = "todo_head @ ws @ todo_fallback"
  have ne: "?m \<noteq> []"
    by (simp add: todo_head_def)
  have hd: "hd ?m = CHR ''/''"
    by (simp add: todo_head_def)
  have la: "last ?m = CHR '')''"
    by (simp add: todo_fallback_def)
  from inserted_chars [OF assms(1)] have "CHR ''/'' \<notin> set ins" "CHR '')'' \<notin> set ins"
    by auto
  with sublist_insert_cases [OF sub ne] hd la
  consider "sublist ?m u" | "sublist ?m w" | "sublist ins ?m"
    by auto
  then show False
  proof cases
    case 1
    then have "sublist ?m (u @ w)"
      by (simp add: sublist_append)
    with ws have "todo_pending (u @ w)"
      unfolding todo_pending_sublist by blast
    with assms(2) show False ..
  next
    case 2
    then have "sublist ?m (u @ w)"
      by (simp add: sublist_append)
    with ws have "todo_pending (u @ w)"
      unfolding todo_pending_sublist by blast
    with assms(2) show False ..
  next
    case 3
    with py_in_trans [of "''gg''" ins ?m] inserted_gg [OF assms(1)] have "sublist ''gg'' ?m"
      by (simp only: py_in_sublist)
    with todo_match_no_gg [OF ws(1)] show False ..
  qed
qed

subsection \<open>The import check\<close>

lemma import_ok_add_import: "import_ok (add_import c)"
proof (cases "py_in ''log/slog'' c \<or> \<not> py_in import_anchor c")
  case True
  then have "add_import c = c"
    by (auto simp: add_import_def py_replace_absent import_anchor_def)
  with True show ?thesis
    by (simp add: import_ok_def)
next
  case False
  have ne: "import_anchor \<noteq> []"
    by (simp add: import_anchor_def)
  from False have c': "add_import c = py_replace import_anchor import_new c"
    by (simp add: add_import_def)
  from False have "py_in import_new (add_import c)"
    unfolding c' by (intro py_replace_present [OF ne]) simp
  moreover have "py_in ''log/slog'' import_new"
    by code_simp
  ultimately have "py_in ''log/slog'' (add_import c)"
    by (rule py_in_trans [rotated])
  then show ?thesis
    by (simp add: import_ok_def)
qed

lemma replace_todos_first_slash:
  "replace_todos s = s
   \<or> (\<exists>p r q. s = p @ CHR ''/'' # CHR ''/'' # r \<and> replace_todos s = p @ CHR ''h'' # q)"
proof (induction s rule: replace_todos.induct)
  case 1
  show ?case by simp
next
  case (2 x xs)
  show ?case
  proof (cases "todo_match_at (x # xs)")
    case (Some m)
    obtain q where q: "todo_repl = CHR ''h'' # q"
      by (simp add: todo_repl_def)
    from todo_match_at_SomeD [OF Some] obtain ws rest where "x # xs = m @ rest"
      "m = todo_head @ ws @ todo_fallback"
      by blast
    then obtain r where "x # xs = [] @ CHR ''/'' # CHR ''/'' # r"
      by (simp add: todo_head_def)
    moreover from Some q
    have "replace_todos (x # xs) = [] @ CHR ''h'' # (q @ replace_todos (drop (length m) (x # xs)))"
      by simp
    ultimately show ?thesis
      by blast
  next
    case None
    from "2.IH"(1) [OF None] consider "replace_todos xs = xs"
      | p r q where "xs = p @ CHR ''/'' # CHR ''/'' # r" "replace_todos xs = p @ CHR ''h'' # q"
      by blast
    then show ?thesis
    proof cases
      case 1
      with None show ?thesis by simp
    next
      case 2
      with None have "x # xs = (x # p) @ CHR ''/'' # CHR ''/'' # r"
        "replace_todos (x # xs) = (x # p) @ CHR ''h'' # q"
        by simp_all
      then show ?thesis by blast
    qed
  qed
qed

lemma prefix_before_pair:
  assumes "prefix y (p @ a # b # r)" and "\<not> sublist [a, b] y" and "y = [] \<or> last y \<noteq> a"
  shows "prefix y p"
proof -
  from assms(1) consider "prefix y p" | y2 where "y = p @ y2" "prefix y2 (a # b # r)"
    by (auto simp: prefix_append)
  then show ?thesis
  proof cases
    case 1
    then show ?thesis .
  next
    case 2
    show ?thesis
    proof (cases y2)
      case Nil
      with 2 show ?thesis by simp
    next
      case (Cons z zs)
      with 2(2) have z: "z = a" and zs: "prefix zs (b # r)"
        by simp_all
      show ?thesis
      proof (cases zs)
        case Nil
        with 2(1) Cons z have "y \<noteq> []" "last y = a"
          by simp_all
        with assms(3) show ?thesis by simp
      next
        case (Cons z' zs')
        with zs have "z' = b" by simp
        with 2(1) \<open>y2 = z # zs\<close> z Cons have "y = p @ [a, b] @ zs'"
          by simp
        then have "sublist [a, b] y"
          unfolding sublist_def by blast
        with assms(2) show ?thesis ..
      qed
    qed
  qed
qed

lemma slog_prefix_kept:
  assumes "prefix ''log/slog'' s"
  shows "prefix ''log/slog'' (replace_todos s)"
proof -
  from replace_todos_first_slash [of s] consider "replace_todos s = s"
    | p r q where "s = p @ CHR ''/'' # CHR ''/'' # r" "replace_todos s = p @ CHR ''h'' # q"
    by blast
  then show ?thesis
  proof cases
    case 1
    with assms show ?thesis by simp
  next
    case 2
    have "\<not> py_in ''//'' ''log/slog''"
      by code_simp
    then have ns: "\<not> sublist [CHR ''/'', CHR ''/''] ''log/slog''"
      by (simp add: py_in_sublist)
    have la: "''log/slog'' = [] \<or> last ''log/slog'' \<noteq> CHR ''/''"
      by simp
    from assms 2(1) have "prefix ''log/slog'' (p @ CHR ''/'' # CHR ''/'' # r)"
      by simp
    from prefix_before_pair [OF this ns la] have "prefix ''log/slog'' p" .
    then show ?thesis
      unfolding 2(2) by (rule prefix_prefix)
  qed
qed

lemma todo_match_no_slog:
  assumes "\<forall>z \<in> set ws. is_space z"
  shows "\<not> sublist ''log/slog'' (todo_head @ ws @ todo_fallback)"
proof
  assume "sublist ''log/slog'' (todo_head @ ws @ todo_fallback)"
  from sublist_straddle [OF this] consider "sublist ''log/slog'' todo_head"
    | "sublist ''log/slog'' (ws @ todo_fallback)" | "last todo_head \<in> set ''log/slog''"
    by blast
  then show False
  proof cases
    case 1
    moreover have "\<not> py_in ''log/slog'' todo_head"
      by code_simp
    ultimately show False
      by (simp add: py_in_sublist)
  next
    case 2
    from set_mono_sublist [OF this] have "CHR ''/'' \<in> set ws \<or> CHR ''/'' \<in> set todo_fallback"
      by auto
    moreover have "CHR ''/'' \<notin> set todo_fallback"
      by (simp add: todo_fallback_def)
    ultimately show False
      using assms not_space_slash by blast
  next
    case 3
    then show False
      by (simp add: todo_head_def)
  qed
qed

lemma replace_todos_keeps_slog:
  assumes "sublist ''log/slog'' s"
  shows "sublist ''log/slog'' (replace_todos s)"
  using assms
proof (induction s rule: replace_todos.induct)
  case 1
  then show ?case by simp
next
  case (2 x xs)
  show ?case
  proof (cases "todo_match_at (x # xs)")
    case None
    from "2.prems" consider "prefix ''log/slog'' (x # xs)" | "sublist ''log/slog'' xs"
      by (auto simp: sublist_Cons_right)
    then show ?thesis
    proof cases
      case 1
      then have "prefix ''log/slog'' (replace_todos (x # xs))"
        by (rule slog_prefix_kept)
      then show ?thesis
        by (rule prefix_imp_sublist)
    next
      case 2
      from "2.IH"(1) [OF None this] have "sublist ''log/slog'' (replace_todos xs)" .
      with None show ?thesis
        by (simp add: sublist_Cons_right)
    qed
  next
    case (Some m)
    from todo_match_at_SomeD [OF Some] obtain ws rest where e: "x # xs = m @ rest"
      and m: "m = todo_head @ ws @ todo_fallback" and ws: "\<forall>z \<in> set ws. is_space z"
      by blast
    have la: "last m = CHR '')''" "m \<noteq> []"
      by (simp_all add: m todo_fallback_def)
    from "2.prems" have "sublist ''log/slog'' (m @ rest)"
      by (simp only: e)
    from sublist_straddle [OF this] todo_match_no_slog [OF ws] la
    have "sublist ''log/slog'' rest"
      by (auto simp: m)
    moreover have "drop (length m) (x # xs) = rest"
      by (simp add: e)
    ultimately have "sublist ''log/slog'' (replace_todos (drop (length m) (x # xs)))"
      using "2.IH"(2) [OF Some] by simp
    then have "sublist ''log/slog'' (todo_repl @ replace_todos (drop (length m) (x # xs)))"
      by (simp add: sublist_append)
    with Some show ?thesis
      by simp
  qed
qed

lemma replace_todos_no_anchor:
  assumes "\<not> sublist import_anchor s"
  shows "\<not> sublist import_anchor (replace_todos s)"
  using assms
proof (induction s rule: replace_todos.induct)
  case 1
  then show ?case by simp
next
  case (2 x xs)
  have nh: "CHR ''h'' \<notin> set import_anchor"
    by (simp add: import_anchor_def)
  show ?case
  proof (cases "todo_match_at (x # xs)")
    case None
    from "2.prems" have np: "\<not> prefix import_anchor (x # xs)" and ns: "\<not> sublist import_anchor xs"
      by (simp_all add: sublist_Cons_right)
    from "2.IH"(1) [OF None ns] have 1: "\<not> sublist import_anchor (replace_todos xs)" .
    have 2: "\<not> prefix import_anchor (x # replace_todos xs)"
    proof
      assume a: "prefix import_anchor (x # replace_todos xs)"
      from replace_todos_first_change [of xs] consider "replace_todos xs = xs"
        | p q where "prefix p xs" "replace_todos xs = p @ CHR ''h'' # q"
        by blast
      then show False
      proof cases
        case 1
        with a np show False by simp
      next
        case 2
        with a have "prefix import_anchor ((x # p) @ CHR ''h'' # q)"
          by simp
        from prefix_before_char [OF this nh] have "prefix import_anchor (x # p)" .
        also have "prefix (x # p) (x # xs)"
          using 2(1) by simp
        finally show False
          using np by simp
      qed
    qed
    from 1 2 None show ?thesis
      by (simp add: sublist_Cons_right)
  next
    case (Some m)
    from todo_match_at_SomeD [OF Some] obtain ws rest where e: "x # xs = m @ rest"
      by blast
    from "2.prems" have "\<not> sublist import_anchor rest"
      unfolding e by (simp add: sublist_append)
    moreover have "drop (length m) (x # xs) = rest"
      by (simp add: e)
    ultimately have r: "\<not> sublist import_anchor (replace_todos (drop (length m) (x # xs)))"
      using "2.IH"(2) [OF Some] by simp
    have "\<not> py_in import_anchor todo_repl"
      by code_simp
    then have t: "\<not> sublist import_anchor todo_repl"
      by (simp add: py_in_sublist)
    have l: "last todo_repl \<notin> set import_anchor"
      by (simp add: todo_repl_def todo_fallback_def import_anchor_def)
    have "\<not> sublist import_anchor (todo_repl @ replace_todos (drop (length m) (x # xs)))"
    proof
      assume "sublist import_anchor (todo_repl @ replace_todos (drop (length m) (x # xs)))"
      from sublist_straddle [OF this] r t l show False
        by blast
    qed
    with Some show ?thesis
      by simp
  qed
qed

lemma import_ok_replace_todos:
  assumes "import_ok s"
  shows "import_ok (replace_todos s)"
  using assms replace_todos_keeps_slog [of s] replace_todos_no_anchor [of s]
  by (auto simp: import_ok_def py_in_sublist)

lemma import_insert_stable:
  assumes "inserted ins k" and "import_ok (u @ k # v)"
  shows "import_ok (u @ ins @ k # v)"
proof (cases "sublist ''log/slog'' (u @ k # v)")
  case True
  from assms(1) have "k \<notin> set ''log/slog''"
    by (auto simp: inserted_def)
  from sublist_insert_keeps [OF True this] show ?thesis
    by (simp add: import_ok_def py_in_sublist)
next
  case False
  with assms(2) have a: "\<not> sublist import_anchor (u @ k # v)"
    by (simp add: import_ok_def py_in_sublist)
  have ne: "import_anchor \<noteq> []"
    by (simp add: import_anchor_def)
  from inserted_chars [OF assms(1)] have "hd import_anchor \<notin> set ins" "last import_anchor \<notin> set ins"
    by (auto simp: import_anchor_def)
  moreover have "\<not> sublist ins import_anchor"
  proof
    assume "sublist ins import_anchor"
    from set_mono_sublist [OF this] inserted_l [OF assms(1)] show False
      by (auto simp: import_anchor_def)
  qed
  ultimately have "\<not> sublist import_anchor (u @ ins @ k # v)"
    using sublist_insert_absent [OF a ne] by blast
  then show ?thesis
    by (simp add: import_ok_def py_in_sublist)
qed

subsection \<open>The checks of the handler rules around an insertion\<close>

lemma good_name_set:
  assumes "good_name h"
  shows "CHR ''}'' \<notin> set h" "CHR '')'' \<notin> set h" "CHR '','' \<notin> set h" "NL \<notin> set h" "TAB \<notin> set h"
  using assms by (auto simp: good_name_def list_all_iff)

lemma handlers_good: "\<forall>h \<in> set handlers. good_name h"
  by (simp add: handlers_def good_name_def)

lemma fits_field:
  assumes "good_name h" and "inserted ins k"
  shows "fits (''type '' @ h @ '' struct {'') (CHR ''}'') [] ins k"
proof -
  from inserted_chars [OF assms(2)]
  have "CHR ''{'' \<notin> set ins" "CHR ''}'' \<notin> set ins"
    by auto
  moreover from inserted_hd [OF assms(2)] good_name_set [OF assms(1)]
  have "ins \<noteq> []" "hd ins \<notin> set (''type '' @ h @ '' struct {'')"
    by auto
  moreover from assms(2) good_name_set [OF assms(1)] have "k \<notin> set (''type '' @ h @ '' struct {'')"
    by (auto simp: inserted_def)
  ultimately show ?thesis
    using inserted_logger [OF assms(2)] by (simp add: fits_def)
qed

lemma fits_param:
  assumes "good_name h" and "inserted ins k"
  shows "fits (''func New'' @ h @ ''('') (CHR '')'') ('' *'' @ h) ins k"
proof -
  from inserted_chars [OF assms(2)]
  have "CHR ''('' \<notin> set ins" "CHR '')'' \<notin> set ins"
    by auto
  moreover from inserted_hd [OF assms(2)] good_name_set [OF assms(1)]
  have "ins \<noteq> []" "hd ins \<notin> set (''func New'' @ h @ ''('')" "hd ins \<notin> set ('' *'' @ h)"
    by auto
  moreover from assms(2) good_name_set [OF assms(1)]
  have "k \<notin> set (''func New'' @ h @ ''('')" "k \<notin> set ('' *'' @ h)"
    by (auto simp: inserted_def)
  ultimately show ?thesis
    using inserted_logger [OF assms(2)] by (simp add: fits_def)
qed

lemma field_ok_logger_found:
  "field_ok h c = logger_found (''type '' @ h @ '' struct {'') (CHR ''}'') [CHR ''}''] c"
  by (simp add: field_ok_def logger_found_def)

lemma param_ok_logger_found:
  "param_ok h c = logger_found (''func New'' @ h @ ''('') (CHR '')'') (CHR '')'' # '' *'' @ h) c"
  by (simp add: param_ok_def logger_found_def)

lemma field_insert_stable:
  assumes "good_name h" and "inserted ins k" and "field_ok h (u @ k # v)"
  shows "field_ok h (u @ ins @ k # v)"
  using logger_found_insert [OF fits_field [OF assms(1,2)]] assms(3)
  by (simp only: field_ok_logger_found)

lemma param_insert_stable:
  assumes "good_name h" and "inserted ins k" and "param_ok h (u @ k # v)"
  shows "param_ok h (u @ ins @ k # v)"
  using logger_found_insert [OF fits_param [OF assms(1,2)]] assms(3)
  by (simp only: param_ok_logger_found)

subsection \<open>One step of a handler rule\<close>

lemma re_search_span_nonempty:
  assumes "re_search lit c tail s = Some (before, g)"
  shows "g \<noteq> []"
proof -
  from re_search_SomeD [OF assms] obtain rest where "span_at lit c tail (g @ rest) = Some g"
    by blast
  from span_at_SomeD [OF this] show ?thesis
    by auto
qed

lemma add_field_step:
  assumes "good_name h" and "field_unique h c"
  shows "field_ok h (add_field h c)
       \<and> (add_field h c = c
          \<or> (\<exists>u v. c = u @ CHR ''}'' # v \<and> add_field h c = u @ field_line @ CHR ''}'' # v))"
proof (cases "field_ok h c")
  case True
  then show ?thesis
    by (simp add: add_field_fixed)
next
  case False
  let ?lit = "''type '' @ h @ '' struct {''"
  from False obtain before g where rs: "re_search ?lit (CHR ''}'') ''}'' c = Some (before, g)"
    and ng: "\<not> py_in ''logger'' g"
    by (auto simp: field_ok_def split: option.splits)
  from ng py_in_tab_logger py_in_logger_star
  have "\<not> py_in (TAB # ''logger'') g" "\<not> py_in ''logger *'' g"
    by blast+
  with rs ng have a: "add_field h c = py_replace g (g @ field_line) c"
    by (simp add: add_field_def)
  from assms(2) rs ng have once: "occurrences g c = 1"
    by (simp add: field_unique_def)
  have ins: "inserted field_line (CHR ''}'')"
    by (simp add: inserted_def)
  from rs have rs': "re_search ?lit (CHR ''}'') (CHR ''}'' # []) c = Some (before, g)"
    by simp
  from logger_found_own_insert [OF fits_field [OF assms(1) ins] rs']
  obtain v where c: "c = before @ g @ CHR ''}'' # v"
    and lf: "logger_found ?lit (CHR ''}'') [CHR ''}''] (before @ g @ field_line @ CHR ''}'' # v)"
    by blast
  have ne: "g \<noteq> []"
    using rs by (rule re_search_span_nonempty)
  from once have "occurrences g (before @ g @ CHR ''}'' # v) = 1"
    by (simp only: c)
  from py_replace_once [OF ne this, of "g @ field_line"] a c
  have r: "add_field h c = (before @ g) @ field_line @ CHR ''}'' # v"
    by simp
  from lf have "field_ok h (add_field h c)"
    by (simp add: r field_ok_logger_found)
  moreover from c have "c = (before @ g) @ CHR ''}'' # v"
    by simp
  ultimately show ?thesis
    using r by blast
qed

lemma new_params_located:
  assumes "re_search lit (CHR '')'') tail c = Some (before, g)"
  shows "new_params g = g @ param_plain \<or> new_params g = g @ param_comma_nl"
  using located_span_last [OF assms] by (simp add: new_params_def)

lemma add_param_step:
  assumes "good_name h" and "param_unique h c"
  shows "param_ok h (add_param h c)
       \<and> (add_param h c = c
          \<or> (\<exists>u v ins. inserted ins (CHR '')'') \<and> c = u @ CHR '')'' # v
               \<and> (add_param h c = u @ ins @ CHR '')'' # v
                  \<or> (\<exists>u' v'. u @ ins @ CHR '')'' # v = u' @ CHR ''}'' # v'
                        \<and> add_param h c = u' @ init_line @ CHR ''}'' # v'))))"
proof (cases "param_ok h c")
  case True
  then show ?thesis
    by (simp add: add_param_fixed)
next
  case False
  let ?lit = "''func New'' @ h @ ''(''"
  let ?tail = "'') *'' @ h"
  let ?ilit = "''return &'' @ h @ ''{''"
  from False obtain before g where rs: "re_search ?lit (CHR '')'') ?tail c = Some (before, g)"
    and ng: "\<not> py_in ''logger'' g"
    by (auto simp: param_ok_def split: option.splits)
  from assms(2) rs ng have once: "occurrences g c = 1"
    by (simp add: param_unique_def)
  from new_params_located [OF rs] obtain ins where np: "new_params g = g @ ins"
    and ins: "inserted ins (CHR '')'')"
    by (auto simp: inserted_def)
  let ?c1 = "py_replace g (new_params g) c"
  from rs have rs': "re_search ?lit (CHR '')'') (CHR '')'' # '' *'' @ h) c = Some (before, g)"
    by simp
  from logger_found_own_insert [OF fits_param [OF assms(1) ins] rs']
  obtain v where c: "c = before @ g @ CHR '')'' # v"
    and lf: "logger_found ?lit (CHR '')'') (CHR '')'' # '' *'' @ h) (before @ g @ ins @ CHR '')'' # v)"
    by blast
  have ne: "g \<noteq> []"
    using rs by (rule re_search_span_nonempty)
  from once have "occurrences g (before @ g @ CHR '')'' # v) = 1"
    by (simp only: c)
  from py_replace_once [OF ne this, of "g @ ins"] c np
  have c1: "?c1 = (before @ g) @ ins @ CHR '')'' # v"
    by simp
  from lf have ok1: "param_ok h ?c1"
    by (simp add: c1 param_ok_logger_found)
  from c have cu: "c = (before @ g) @ CHR '')'' # v"
    by simp
  show ?thesis
  proof (cases "re_search ?ilit (CHR ''}'') ''}'' ?c1")
    case None
    with rs ng have "add_param h c = ?c1"
      by (simp add: add_param_def Let_def)
    with ok1 c1 cu ins show ?thesis
      by metis
  next
    case (Some bi)
    obtain b1 gi where bi: "bi = (b1, gi)"
      by (cases bi)
    note ri = Some [unfolded bi]
    show ?thesis
    proof (cases "\<not> py_in ''logger:'' gi \<and> \<not> py_in ''logger *'' gi")
      case False
      with rs ng ri have "add_param h c = ?c1"
        by (auto simp: add_param_def Let_def)
      with ok1 c1 cu ins show ?thesis
        by metis
    next
      case True
      with rs ng ri have a: "add_param h c = py_replace gi (gi @ init_line) ?c1"
        by (simp add: add_param_def Let_def)
      from assms(2) rs ng ri True have oi: "occurrences gi ?c1 = 1"
        by (simp add: param_unique_def Let_def)
      from re_search_SomeD [OF ri] obtain resti where ci: "?c1 = b1 @ gi @ resti"
        and sp: "span_at ?ilit (CHR ''}'') ''}'' (gi @ resti) = Some gi"
        by blast
      from span_at_SomeD [OF sp] obtain body rest' where "gi @ resti = ?ilit @ body @ rest'"
        "gi = ?ilit @ body" "prefix ''}'' rest'"
        by blast
      then obtain v' where resti: "resti = CHR ''}'' # v'"
        by (cases resti) auto
      have nei: "gi \<noteq> []"
        using ri by (rule re_search_span_nonempty)
      from oi have "occurrences gi (b1 @ gi @ CHR ''}'' # v') = 1"
        by (simp only: ci resti)
      from py_replace_once [OF nei this, of "gi @ init_line"] a ci resti
      have r: "add_param h c = (b1 @ gi) @ init_line @ CHR ''}'' # v'"
        by simp
      have ci': "?c1 = (b1 @ gi) @ CHR ''}'' # v'"
        using ci resti by simp
      have ii: "inserted init_line (CHR ''}'')"
        by (simp add: inserted_def)
      from ok1 have "param_ok h ((b1 @ gi) @ CHR ''}'' # v')"
        by (simp only: ci')
      from param_insert_stable [OF assms(1) ii this] have "param_ok h (add_param h c)"
        by (simp only: r)
      moreover have "(before @ g) @ ins @ CHR '')'' # v = (b1 @ gi) @ CHR ''}'' # v'"
        using c1 ci' by simp
      ultimately show ?thesis
        using r cu ins by blast
    qed
  qed
qed

lemma add_field_preserves:
  assumes st: "\<And>u v ins k. inserted ins k \<Longrightarrow> Q (u @ k # v) \<Longrightarrow> Q (u @ ins @ k # v)"
    and "good_name h" and "field_unique h c" and "Q c"
  shows "Q (add_field h c)"
proof -
  from add_field_step [OF assms(2,3)] consider "add_field h c = c"
    | u v where "c = u @ CHR ''}'' # v" "add_field h c = u @ field_line @ CHR ''}'' # v"
    by blast
  then show ?thesis
  proof cases
    case 1
    with assms(4) show ?thesis by simp
  next
    case 2
    have "inserted field_line (CHR ''}'')"
      by (simp add: inserted_def)
    from st [OF this, of u v] assms(4) 2 show ?thesis
      by simp
  qed
qed

lemma add_param_preserves:
  assumes st: "\<And>u v ins k. inserted ins k \<Longrightarrow> Q (u @ k # v) \<Longrightarrow> Q (u @ ins @ k # v)"
    and "good_name h" and "param_unique h c" and "Q c"
  shows "Q (add_param h c)"
proof -
  from add_param_step [OF assms(2,3)] consider "add_param h c = c"
    | u v ins where "inserted ins (CHR '')'')" "c = u @ CHR '')'' # v"
        "add_param h c = u @ ins @ CHR '')'' # v"
    | u v ins u' v' where "inserted ins (CHR '')'')" "c = u @ CHR '')'' # v"
        "u @ ins @ CHR '')'' # v = u' @ CHR ''}'' # v'"
        "add_param h c = u' @ init_line @ CHR ''}'' # v'"
    by blast
  then show ?thesis
  proof cases
    case 1
    with assms(4) show ?thesis by simp
  next
    case 2
    from st [OF 2(1), of u v] assms(4) 2(2,3) show ?thesis
      by simp
  next
    case 3
    from st [OF 3(1), of u v] assms(4) 3(2) have "Q (u @ ins @ CHR '')'' # v)"
      by simp
    then have "Q (u' @ CHR ''}'' # v')"
      by (simp only: 3(3))
    moreover have "inserted init_line (CHR ''}'')"
      by (simp add: inserted_def)
    ultimately have "Q (u' @ init_line @ CHR ''}'' # v')"
      by (rule st [rotated])
    then show ?thesis
      by (simp only: 3(4))
  qed
qed

subsection \<open>The rules over the whole catalog\<close>

lemma fold_add_field_preserves:
  assumes st: "\<And>u v ins k. inserted ins k \<Longrightarrow> Q (u @ k # v) \<Longrightarrow> Q (u @ ins @ k # v)"
    and "\<forall>h \<in> set hs. good_name h" and "fields_unique hs c" and "Q c"
  shows "Q (fold add_field hs c)"
  using assms(2-4)
proof (induction hs arbitrary: c)
  case Nil
  then show ?case by simp
next
  case (Cons h hs)
  from Cons.prems have g: "good_name h" and u: "field_unique h c"
    and gs: "\<forall>h \<in> set hs. good_name h" and us: "fields_unique hs (add_field h c)"
    by simp_all
  from add_field_preserves [of Q, OF st g u Cons.prems(3)] have "Q (add_field h c)" .
  from Cons.IH [OF gs us this] show ?case
    by simp
qed

lemma fold_add_param_preserves:
  assumes st: "\<And>u v ins k. inserted ins k \<Longrightarrow> Q (u @ k # v) \<Longrightarrow> Q (u @ ins @ k # v)"
    and "\<forall>h \<in> set hs. good_name h" and "params_unique hs c" and "Q c"
  shows "Q (fold add_param hs c)"
  using assms(2-4)
proof (induction hs arbitrary: c)
  case Nil
  then show ?case by simp
next
  case (Cons h hs)
  from Cons.prems have g: "good_name h" and u: "param_unique h c"
    and gs: "\<forall>h \<in> set hs. good_name h" and us: "params_unique hs (add_param h c)"
    by simp_all
  from add_param_preserves [of Q, OF st g u Cons.prems(3)] have "Q (add_param h c)" .
  from Cons.IH [OF gs us this] show ?case
    by simp
qed

lemma fold_add_field_establishes:
  assumes "\<forall>h \<in> set hs. good_name h" and "fields_unique hs c"
  shows "\<forall>h \<in> set hs. field_ok h (fold add_field hs c)"
  using assms
proof (induction hs arbitrary: c)
  case Nil
  then show ?case by simp
next
  case (Cons h hs)
  from Cons.prems have g: "good_name h" and u: "field_unique h c"
    and gs: "\<forall>h \<in> set hs. good_name h" and us: "fields_unique hs (add_field h c)"
    by simp_all
  from add_field_step [OF g u] have "field_ok h (add_field h c)"
    by simp
  with fold_add_field_preserves [of "field_ok h", OF field_insert_stable [OF g] gs us]
  have "field_ok h (fold add_field hs (add_field h c))"
    by blast
  with Cons.IH [OF gs us] show ?case
    by simp
qed

lemma fold_add_param_establishes:
  assumes "\<forall>h \<in> set hs. good_name h" and "params_unique hs c"
  shows "\<forall>h \<in> set hs. param_ok h (fold add_param hs c)"
  using assms
proof (induction hs arbitrary: c)
  case Nil
  then show ?case by simp
next
  case (Cons h hs)
  from Cons.prems have g: "good_name h" and u: "param_unique h c"
    and gs: "\<forall>h \<in> set hs. good_name h" and us: "params_unique hs (add_param h c)"
    by simp_all
  from add_param_step [OF g u] have "param_ok h (add_param h c)"
    by simp
  with fold_add_param_preserves [of "param_ok h", OF param_insert_stable [OF g] gs us]
  have "param_ok h (fold add_param hs (add_param h c))"
    by blast
  with Cons.IH [OF gs us] show ?case
    by simp
qed

lemma postconditions_established:
  assumes "spans_unique c"
  shows "postconditions (update_handler_content c)"
proof -
  let ?c1 = "replace_todos (add_import c)"
  let ?c2 = "fold add_field handlers ?c1"
  let ?c3 = "fold add_param handlers ?c2"
  from assms have fu: "fields_unique handlers ?c1" and pu: "params_unique handlers ?c2"
    by (simp_all add: spans_unique_def Let_def)
  note g = handlers_good
  have i1: "import_ok ?c1"
    using import_ok_add_import by (rule import_ok_replace_todos)
  have t1: "\<not> todo_pending ?c1"
    by (rule replace_todos_done)
  have i2: "import_ok ?c2"
    using import_insert_stable g fu i1 by (rule fold_add_field_preserves)
  have i3: "import_ok ?c3"
    using import_insert_stable g pu i2 by (rule fold_add_param_preserves)
  have t2: "\<not> todo_pending ?c2"
    using todo_insert_stable g fu t1 by (rule fold_add_field_preserves [where Q = "\<lambda>c. \<not> todo_pending c"])
  have t3: "\<not> todo_pending ?c3"
    using todo_insert_stable g pu t2 by (rule fold_add_param_preserves [where Q = "\<lambda>c. \<not> todo_pending c"])
  have f2: "\<forall>h \<in> set handlers. field_ok h ?c2"
    using g fu by (rule fold_add_field_establishes)
  have f3: "\<forall>h \<in> set handlers. field_ok h ?c3"
  proof
    fix h assume h: "h \<in> set handlers"
    with g have gh: "good_name h" by blast
    from f2 h have "field_ok h ?c2" by blast
    with fold_add_param_preserves [of "field_ok h", OF field_insert_stable [OF gh] g pu]
    show "field_ok h ?c3"
      by blast
  qed
  have p3: "\<forall>h \<in> set handlers. param_ok h ?c3"
    using g pu by (rule fold_add_param_establishes)
  from i3 t3 f3 p3 show ?thesis
    by (simp add: postconditions_def update_handler_content_def list_all_iff)
qed

lemma add_param_idem:
  assumes "good_name h" and "param_unique h c"
  shows "add_param h (add_param h c) = add_param h c"
proof -
  from add_param_step [OF assms] have "param_ok h (add_param h c)"
    by simp
  then show ?thesis
    by (rule add_param_fixed)
qed

section \<open>Write-back\<close>

text \<open>
  C2. Each of the three file updaters writes the file back iff the transformed content
  differs from the content it read: when it differs there is exactly one write, of the
  complete new content, and the file is reported changed; when it does not, the file
  system is left as it was, no write is made and the file is reported unchanged.
\<close>

theorem conditional_write_back:
  assumes "fs path = Some original"
  shows "update_handler_file fs path =
           Inr (if update_handler_content original \<noteq> original
                then (fs(path \<mapsto> update_handler_content original),
                      [(path, update_handler_content original)], True)
                else (fs, [], False))
       \<and> update_main_file fs path =
           Inr (if update_main_content original \<noteq> original
                then (fs(path \<mapsto> update_main_content original),
                      [(path, update_main_content original)], True)
                else (fs, [], False))
       \<and> update_test_file fs path =
           Inr (if update_test_content original \<noteq> original
                then (fs(path \<mapsto> update_test_content original),
                      [(path, update_test_content original)], True)
                else (fs, [], False))"
  using assms
  by (simp add: update_handler_file_def update_main_file_def update_test_file_def Let_def)

theorem conditional_write_back_witness:
  "[''main.go'' \<mapsto> ''NewFXHandler(1)''] ''main.go'' = Some ''NewFXHandler(1)''
   \<and> update_main_file [''main.go'' \<mapsto> ''NewFXHandler(1)''] ''main.go''
       = Inr ([''main.go'' \<mapsto> ''NewFXHandler(1,'' @ [NL, TAB, TAB] @ ''logger,)''],
              [(''main.go'', ''NewFXHandler(1,'' @ [NL, TAB, TAB] @ ''logger,)'')], True)
   \<and> update_handler_file [''main.go'' \<mapsto> ''NewFXHandler(1)''] ''main.go''
       = Inr ([''main.go'' \<mapsto> ''NewFXHandler(1)''], [], False)"
proof -
  have present: "[''main.go'' \<mapsto> ''NewFXHandler(1)''] ''main.go'' = Some ''NewFXHandler(1)''"
    by simp
  have main: "update_main_content ''NewFXHandler(1)''
                = ''NewFXHandler(1,'' @ [NL, TAB, TAB] @ ''logger,)''"
    by code_simp
  have handler: "update_handler_content ''NewFXHandler(1)'' = ''NewFXHandler(1)''"
    by code_simp
  show ?thesis
    using conditional_write_back
            [of "[''main.go'' \<mapsto> ''NewFXHandler(1)'']" "''main.go''" "''NewFXHandler(1)''"]
          present main handler
    by simp
qed

text \<open>
  C9. The healthcheck script has no test before its write: whenever
  \<^verbatim>\<open>docker-compose.yml\<close> can be read, the script writes the substituted content back,
  also when the substitution changed nothing.
\<close>

theorem healthcheck_write_unconditional:
  assumes "fs compose_file = Some content"
  shows "fix_healthchecks_script fs =
           Inr (fs(compose_file \<mapsto> fix_healthchecks content),
                [(compose_file, fix_healthchecks content)])"
  using assms by (simp add: fix_healthchecks_script_def Let_def)

theorem healthcheck_write_unconditional_witness:
  "[compose_file \<mapsto> ''services: {}''] compose_file = Some ''services: {}''
   \<and> fix_healthchecks ''services: {}'' = ''services: {}''
   \<and> fix_healthchecks_script [compose_file \<mapsto> ''services: {}'']
       = Inr ([compose_file \<mapsto> ''services: {}''], [(compose_file, ''services: {}'')])"
proof -
  have same: "fix_healthchecks ''services: {}'' = ''services: {}''"
    by code_simp
  have present: "[compose_file \<mapsto> ''services: {}''] compose_file = Some ''services: {}''"
    by simp
  show ?thesis
    using healthcheck_write_unconditional
            [of "[compose_file \<mapsto> ''services: {}'']" "''services: {}''"]
          same present
    by simp
qed

section \<open>Scenarios\<close>

text \<open>
  C4 (Scenario C). For the constructor
  \<^verbatim>\<open>func NewFoo(x int) *Foo { return &Foo{x: x} }\<close> and the handler name \<^verbatim>\<open>Foo\<close>, the
  body of the second loop of \<^verbatim>\<open>update_handler_file\<close> appends the parameter
  \<^verbatim>\<open>logger *slog.Logger\<close>, after a comma, at the end of the parameter list, and the
  assignment \<^verbatim>\<open>logger: logger,\<close> (padded with spaces) at the end of the returned struct
  literal. The whole transform does the same for a handler of the catalog.
\<close>

theorem scenario_c_constructor_injection:
  "add_param ''Foo'' ''func NewFoo(x int) *Foo { return &Foo{x: x} }''
     = ''func NewFoo(x int,'' @ [NL, TAB] @ ''logger *slog.Logger) *Foo { return &Foo{x: x''
       @ [NL, TAB, TAB] @ ''logger:               logger,} }''
   \<and> update_handler_content
         ''func NewFXHandler(x int) *FXHandler { return &FXHandler{x: x} }''
     = ''func NewFXHandler(x int,'' @ [NL, TAB]
       @ ''logger *slog.Logger) *FXHandler { return &FXHandler{x: x''
       @ [NL, TAB, TAB] @ ''logger:               logger,} }''"
  by code_simp

text \<open>
  C5 (Scenario D). In \<^verbatim>\<open>update-tests.py\<close> a call \<^verbatim>\<open>NewFoo(1)\<close> without a logger loses
  its closing parenthesis: the new text replaces the whole match, group 2 included, but
  holds group 1 only. \<^verbatim>\<open>update-mains.py\<close> keeps the parenthesis on the same call.
\<close>

theorem test_updater_drops_closing_parenthesis:
  "add_arg_test ''NewFoo'' ''NewFoo(1)'' = ''NewFoo(1,'' @ [NL, TAB, TAB] @ ''logger,''
   \<and> update_test_content ''NewFXHandler(1)'' = ''NewFXHandler(1,'' @ [NL, TAB, TAB] @ ''logger,''
   \<and> add_arg_main ''NewFoo'' ''NewFoo(1)'' = ''NewFoo(1,'' @ [NL, TAB, TAB] @ ''logger,)''
   \<and> update_main_content ''NewFXHandler(1)'' = ''NewFXHandler(1,'' @ [NL, TAB, TAB] @ ''logger,)''"
  by code_simp

section \<open>Non-matching files\<close>

text \<open>
  C7. The target identifiers of the rules of \<^verbatim>\<open>update_handler_file\<close> are the anchor of
  the import rule, the marker comment of the placeholder rule and the handler names of
  the catalog. A file whose content contains none of them is left as it is by the
  transform, is not written and is reported unchanged.
\<close>

theorem noop_on_non_matching_file:
  assumes "\<not> py_in import_anchor content"
    and "\<not> py_in todo_head content"
    and "\<forall>h \<in> set handlers. \<not> py_in h content"
    and "fs path = Some content"
  shows "update_handler_content content = content
       \<and> update_handler_file fs path = Inr (fs, [], False)"
proof -
  have 1: "add_import content = content"
    using assms(1) by (rule add_import_absent)
  have 2: "replace_todos content = content"
    using assms(2) by (rule replace_todos_absent)
  have 3: "fold add_field handlers content = content"
    using assms(3) by (intro fold_absent add_field_absent) simp
  have 4: "fold add_param handlers content = content"
    using assms(3) by (intro fold_absent add_param_absent) simp
  have "update_handler_content content = content"
    by (simp add: update_handler_content_def 1 2 3 4)
  then show ?thesis
    using assms(4) by (simp add: update_handler_file_def)
qed

theorem noop_on_non_matching_file_witness:
  "\<not> py_in import_anchor ''package main''
   \<and> \<not> py_in todo_head ''package main''
   \<and> list_all (\<lambda>h. \<not> py_in h ''package main'') handlers
   \<and> [''handler.go'' \<mapsto> ''package main''] ''handler.go'' = Some ''package main''
   \<and> update_handler_content ''package main'' = ''package main''
   \<and> update_handler_file [''handler.go'' \<mapsto> ''package main''] ''handler.go''
       = Inr ([''handler.go'' \<mapsto> ''package main''], [], False)"
proof -
  have 1: "\<not> py_in import_anchor ''package main''"
    by code_simp
  have 2: "\<not> py_in todo_head ''package main''"
    by code_simp
  have 3: "\<forall>h \<in> set handlers. \<not> py_in h ''package main''"
    by code_simp
  have 4: "[''handler.go'' \<mapsto> ''package main''] ''handler.go'' = Some ''package main''"
    by simp
  show ?thesis
    using noop_on_non_matching_file [OF 1 2 3, of "[''handler.go'' \<mapsto> ''package main'']" "''handler.go''"]
          1 2 3 4
    by (simp add: list_all_iff)
qed

section \<open>Substitution of a located span\<close>

text \<open>
  C6, as the claim states it: the text of the located struct body occurs twice, and the
  rewrite changes both occurrences, where a substitution of the first occurrence would
  leave the second.
\<close>

theorem first_occurrence_counterexample:
  "re_search ''type FXHandler struct {'' (CHR ''}'') ''}''
       ''type FXHandler struct {a} type FXHandler struct {a}''
     = Some ([], ''type FXHandler struct {a'')
   \<and> add_field ''FXHandler'' ''type FXHandler struct {a} type FXHandler struct {a}''
     = ''type FXHandler struct {a'' @ field_line @ ''} type FXHandler struct {a'' @ field_line @ ''}''
   \<and> replace_first ''type FXHandler struct {a'' (''type FXHandler struct {a'' @ field_line)
       ''type FXHandler struct {a} type FXHandler struct {a}''
     = ''type FXHandler struct {a'' @ field_line @ ''} type FXHandler struct {a}''"
  by code_simp

text \<open>
  C6, amended. The rewritten span is substituted for every occurrence of the span's text
  in the content, from the left; for a struct body and for a struct literal the leftmost
  occurrence is the located span itself, so that the text before it is kept. When for one
  handler both a parameter list and a struct literal are found, every occurrence of the
  parameter span is rewritten first, the struct literal is then located in the result and
  every occurrence of it is rewritten.
\<close>

theorem span_substitution_every_occurrence:
  "(re_search (''type '' @ handler @ '' struct {'') (CHR ''}'') ''}'' content = Some (before, fields)
      \<and> \<not> py_in ''logger'' fields
    \<longrightarrow> add_field handler content
          = before @ (fields @ field_line)
            @ py_replace fields (fields @ field_line) (drop (length before + length fields) content))
   \<and> (re_search (''func New'' @ handler @ ''('') (CHR '')'') ('') *'' @ handler) content
         = Some (before1, params)
      \<and> \<not> py_in ''logger'' params
      \<and> re_search (''return &'' @ handler @ ''{'') (CHR ''}'') ''}''
           (py_replace params (new_params params) content) = Some (before2, init_fields)
      \<and> \<not> py_in ''logger:'' init_fields \<and> \<not> py_in ''logger *'' init_fields
    \<longrightarrow> add_param handler content
          = before2 @ (init_fields @ init_line)
            @ py_replace init_fields (init_fields @ init_line)
                (drop (length before2 + length init_fields)
                   (py_replace params (new_params params) content)))"
proof (intro conjI impI)
  assume a: "re_search (''type '' @ handler @ '' struct {'') (CHR ''}'') ''}'' content = Some (before, fields)
      \<and> \<not> py_in ''logger'' fields"
  then have "add_field handler content = py_replace fields (fields @ field_line) content"
    using py_in_logger_star py_in_tab_logger by (auto simp: add_field_def)
  also have "\<dots> = before @ (fields @ field_line)
            @ py_replace fields (fields @ field_line) (drop (length before + length fields) content)"
    using a py_replace_first_match [of "''type '' @ handler @ '' struct {''" "CHR ''}''" content before fields]
    by simp
  finally show "add_field handler content
          = before @ (fields @ field_line)
            @ py_replace fields (fields @ field_line) (drop (length before + length fields) content)" .
next
  let ?c1 = "py_replace params (new_params params) content"
  assume a: "re_search (''func New'' @ handler @ ''('') (CHR '')'') ('') *'' @ handler) content
         = Some (before1, params)
      \<and> \<not> py_in ''logger'' params
      \<and> re_search (''return &'' @ handler @ ''{'') (CHR ''}'') ''}'' ?c1 = Some (before2, init_fields)
      \<and> \<not> py_in ''logger:'' init_fields \<and> \<not> py_in ''logger *'' init_fields"
  then have "add_param handler content = py_replace init_fields (init_fields @ init_line) ?c1"
    by (simp add: add_param_def Let_def)
  also have "\<dots> = before2 @ (init_fields @ init_line)
            @ py_replace init_fields (init_fields @ init_line)
                (drop (length before2 + length init_fields) ?c1)"
    using a py_replace_first_match [of "''return &'' @ handler @ ''{''" "CHR ''}''" ?c1 before2 init_fields]
    by simp
  finally show "add_param handler content
          = before2 @ (init_fields @ init_line)
            @ py_replace init_fields (init_fields @ init_line)
                (drop (length before2 + length init_fields) ?c1)" .
qed

theorem span_substitution_every_occurrence_witness:
  "re_search (''type '' @ ''FXHandler'' @ '' struct {'') (CHR ''}'') ''}''
       ''type FXHandler struct {a} func NewFXHandler(x) *FXHandler { return &FXHandler{x} }''
     = Some ([], ''type FXHandler struct {a'')
   \<and> \<not> py_in ''logger'' ''type FXHandler struct {a''
   \<and> add_field ''FXHandler''
       ''type FXHandler struct {a} func NewFXHandler(x) *FXHandler { return &FXHandler{x} }''
     = ''type FXHandler struct {a'' @ field_line
       @ ''} func NewFXHandler(x) *FXHandler { return &FXHandler{x} }''
   \<and> re_search (''func New'' @ ''FXHandler'' @ ''('') (CHR '')'') ('') *'' @ ''FXHandler'')
       ''type FXHandler struct {a} func NewFXHandler(x) *FXHandler { return &FXHandler{x} }''
     = Some (''type FXHandler struct {a} '', ''func NewFXHandler(x'')
   \<and> \<not> py_in ''logger'' ''func NewFXHandler(x''
   \<and> re_search (''return &'' @ ''FXHandler'' @ ''{'') (CHR ''}'') ''}''
       (py_replace ''func NewFXHandler(x'' (new_params ''func NewFXHandler(x'')
          ''type FXHandler struct {a} func NewFXHandler(x) *FXHandler { return &FXHandler{x} }'')
     = Some (''type FXHandler struct {a} func NewFXHandler(x'' @ param_plain @ '') *FXHandler { '',
             ''return &FXHandler{x'')
   \<and> \<not> py_in ''logger:'' ''return &FXHandler{x'' \<and> \<not> py_in ''logger *'' ''return &FXHandler{x''
   \<and> add_param ''FXHandler''
       ''type FXHandler struct {a} func NewFXHandler(x) *FXHandler { return &FXHandler{x} }''
     = ''type FXHandler struct {a} func NewFXHandler(x'' @ param_plain
       @ '') *FXHandler { return &FXHandler{x'' @ init_line @ ''} }''"
proof -
  let ?c = "''type FXHandler struct {a} func NewFXHandler(x) *FXHandler { return &FXHandler{x} }''"
  let ?c1 = "py_replace ''func NewFXHandler(x'' (new_params ''func NewFXHandler(x'') ?c"
  have 1: "re_search (''type '' @ ''FXHandler'' @ '' struct {'') (CHR ''}'') ''}'' ?c
             = Some ([], ''type FXHandler struct {a'')"
    by code_simp
  have 2: "\<not> py_in ''logger'' ''type FXHandler struct {a''"
    by code_simp
  have 3: "re_search (''func New'' @ ''FXHandler'' @ ''('') (CHR '')'') ('') *'' @ ''FXHandler'') ?c
             = Some (''type FXHandler struct {a} '', ''func NewFXHandler(x'')"
    by code_simp
  have 4: "\<not> py_in ''logger'' ''func NewFXHandler(x''"
    by code_simp
  have 5: "re_search (''return &'' @ ''FXHandler'' @ ''{'') (CHR ''}'') ''}'' ?c1
             = Some (''type FXHandler struct {a} func NewFXHandler(x'' @ param_plain @ '') *FXHandler { '',
                     ''return &FXHandler{x'')"
    by code_simp
  have 6: "\<not> py_in ''logger:'' ''return &FXHandler{x'' \<and> \<not> py_in ''logger *'' ''return &FXHandler{x''"
    by code_simp
  have 7: "[] @ (''type FXHandler struct {a'' @ field_line)
            @ py_replace ''type FXHandler struct {a'' (''type FXHandler struct {a'' @ field_line)
                (drop (length ([] :: string) + length ''type FXHandler struct {a'') ?c)
           = ''type FXHandler struct {a'' @ field_line
             @ ''} func NewFXHandler(x) *FXHandler { return &FXHandler{x} }''"
    by code_simp
  have 8: "(''type FXHandler struct {a} func NewFXHandler(x'' @ param_plain @ '') *FXHandler { '')
            @ (''return &FXHandler{x'' @ init_line)
            @ py_replace ''return &FXHandler{x'' (''return &FXHandler{x'' @ init_line)
                (drop (length (''type FXHandler struct {a} func NewFXHandler(x'' @ param_plain @ '') *FXHandler { '')
                       + length ''return &FXHandler{x'') ?c1)
           = ''type FXHandler struct {a} func NewFXHandler(x'' @ param_plain
             @ '') *FXHandler { return &FXHandler{x'' @ init_line @ ''} }''"
    by code_simp
  from span_substitution_every_occurrence
         [of "''FXHandler''" ?c "[]" "''type FXHandler struct {a''" "''type FXHandler struct {a} ''"
             "''func NewFXHandler(x''"
             "''type FXHandler struct {a} func NewFXHandler(x'' @ param_plain @ '') *FXHandler { ''"
             "''return &FXHandler{x''"]
       1 2 3 4 5 6
  have "add_field ''FXHandler'' ?c
          = [] @ (''type FXHandler struct {a'' @ field_line)
            @ py_replace ''type FXHandler struct {a'' (''type FXHandler struct {a'' @ field_line)
                (drop (length ([] :: string) + length ''type FXHandler struct {a'') ?c)"
    and "add_param ''FXHandler'' ?c
          = (''type FXHandler struct {a} func NewFXHandler(x'' @ param_plain @ '') *FXHandler { '')
            @ (''return &FXHandler{x'' @ init_line)
            @ py_replace ''return &FXHandler{x'' (''return &FXHandler{x'' @ init_line)
                (drop (length (''type FXHandler struct {a} func NewFXHandler(x'' @ param_plain @ '') *FXHandler { '')
                       + length ''return &FXHandler{x'') ?c1)"
    by blast+
  then have "add_field ''FXHandler'' ?c = ''type FXHandler struct {a'' @ field_line
             @ ''} func NewFXHandler(x) *FXHandler { return &FXHandler{x} }''"
    and "add_param ''FXHandler'' ?c = ''type FXHandler struct {a} func NewFXHandler(x'' @ param_plain
             @ '') *FXHandler { return &FXHandler{x'' @ init_line @ ''} }''"
    by (simp_all only: 7 8)
  with 1 2 3 4 5 6 show ?thesis
    by blast
qed

text \<open>
  C10, as the claim states it: a second call with the same arguments is rewritten too.
\<close>

theorem main_updater_counterexample:
  "add_arg_main ''NewFXHandler'' ''NewFXHandler(a) NewFXHandler(a)''
     = ''NewFXHandler(a,'' @ [NL, TAB, TAB] @ ''logger,) NewFXHandler(a,'' @ [NL, TAB, TAB] @ ''logger,)''
   \<and> update_main_content ''NewFXHandler(a) NewFXHandler(a)''
     = ''NewFXHandler(a,'' @ [NL, TAB, TAB] @ ''logger,) NewFXHandler(a,'' @ [NL, TAB, TAB] @ ''logger,)''"
  by code_simp

text \<open>
  C10, amended. For one constructor name the main-file updater looks at the first match
  of the call pattern only. If its span mentions \<^verbatim>\<open>logger\<close>, nothing is rewritten for
  that name. Otherwise the span is rewritten there and at every later occurrence of the
  span's text; a later call is left as it is when the text after the first span does not
  contain the span's text.
\<close>

theorem main_updater_first_match_only:
  assumes "re_search (handler @ ''('') (CHR '')'') '')'' content = Some (before, args)"
  shows "(py_in ''logger'' (lower args) \<longrightarrow> add_arg_main handler content = content)
       \<and> (\<not> py_in ''logger'' (lower args) \<longrightarrow>
            add_arg_main handler content
              = before @ new_args args
                @ py_replace args (new_args args) (drop (length before + length args) content))
       \<and> (\<not> py_in ''logger'' (lower args)
            \<and> \<not> py_in args (drop (length before + length args) content) \<longrightarrow>
            add_arg_main handler content
              = before @ new_args args @ drop (length before + length args) content)"
proof -
  have ne: "args \<noteq> []"
    using re_search_SomeD [OF assms] span_at_SomeD by fastforce
  have r: "py_replace args (new_args args) content
             = before @ new_args args
               @ py_replace args (new_args args) (drop (length before + length args) content)"
    using assms by (rule py_replace_first_match)
  show ?thesis
    using assms r ne by (auto simp: add_arg_main_def py_replace_absent)
qed

theorem main_updater_first_match_only_witness:
  "re_search (''NewFXHandler'' @ ''('') (CHR '')'') '')'' ''NewFXHandler(a) NewFXHandler(b)''
     = Some ([], ''NewFXHandler(a'')
   \<and> \<not> py_in ''logger'' (lower ''NewFXHandler(a'')
   \<and> \<not> py_in ''NewFXHandler(a'' '') NewFXHandler(b)''
   \<and> add_arg_main ''NewFXHandler'' ''NewFXHandler(a) NewFXHandler(b)''
     = ''NewFXHandler(a,'' @ [NL, TAB, TAB] @ ''logger,) NewFXHandler(b)''"
proof -
  have 1: "re_search (''NewFXHandler'' @ ''('') (CHR '')'') '')'' ''NewFXHandler(a) NewFXHandler(b)''
     = Some ([], ''NewFXHandler(a'')"
    by code_simp
  have 2: "\<not> py_in ''logger'' (lower ''NewFXHandler(a'')"
    by code_simp
  have 3: "\<not> py_in ''NewFXHandler(a'' '') NewFXHandler(b)''"
    by code_simp
  have 4: "new_args ''NewFXHandler(a'' = ''NewFXHandler(a,'' @ [NL, TAB, TAB] @ ''logger,''"
    by code_simp
  show ?thesis
    using main_updater_first_match_only [OF 1] 1 2 3 4
    by simp
qed

section \<open>Separators of the injected element\<close>

text \<open>
  C3. The parameter rule of \<^verbatim>\<open>update_handler_file\<close> looks for a trailing separator with
  \<^verbatim>\<open>params.endswith(',\n')\<close> only. On a parameter list that ends with a comma and no
  newline, \<^verbatim>\<open>func NewFXHandler(a int,) *FXHandler\<close>, the span is separator-terminated
  and the rule still puts a comma first: the rewrite holds a double comma. With a newline
  after the comma no second comma is written, and \<^verbatim>\<open>update_main_file\<close>, which tests
  \<^verbatim>\<open>args.rstrip().endswith(',')\<close>, writes none on the same ending. The assignment added
  to the struct literal is appended with no test at all: after \<^verbatim>\<open>x: x\<close>, which no comma
  ends, no comma is put first.
\<close>

theorem parameter_separator_doubled:
  "re_search ''func NewFXHandler('' (CHR '')'') '') *FXHandler'' ''func NewFXHandler(a int,) *FXHandler''
     = Some ([], ''func NewFXHandler(a int,'')
   \<and> separator_terminated ''func NewFXHandler(a int,''
   \<and> \<not> double_separator ''func NewFXHandler(a int,) *FXHandler''
   \<and> update_handler_content ''func NewFXHandler(a int,) *FXHandler''
     = ''func NewFXHandler(a int,,'' @ [NL, TAB] @ ''logger *slog.Logger) *FXHandler''
   \<and> double_separator (update_handler_content ''func NewFXHandler(a int,) *FXHandler'')
   \<and> update_handler_content (''func NewFXHandler(a int,'' @ [NL] @ '') *FXHandler'')
     = ''func NewFXHandler(a int,'' @ [NL, TAB] @ ''logger *slog.Logger,'' @ [NL] @ '') *FXHandler''
   \<and> update_main_content ''NewFXHandler(a,)'' = ''NewFXHandler(a,'' @ [NL, TAB, TAB] @ ''logger,)''
   \<and> \<not> double_separator (update_main_content ''NewFXHandler(a,)'')
   \<and> re_search ''return &FXHandler{'' (CHR ''}'') ''}''
        ''func NewFXHandler(x int) *FXHandler { return &FXHandler{x: x} }''
     = Some (''func NewFXHandler(x int) *FXHandler { '', ''return &FXHandler{x: x'')
   \<and> \<not> separator_terminated ''return &FXHandler{x: x''
   \<and> update_handler_content ''func NewFXHandler(x int) *FXHandler { return &FXHandler{x: x} }''
     = ''func NewFXHandler(x int,'' @ [NL, TAB]
       @ ''logger *slog.Logger) *FXHandler { return &FXHandler{x: x''
       @ [NL, TAB, TAB] @ ''logger:               logger,} }''"
  by code_simp

section \<open>The healthcheck patch\<close>




section \<open>Idempotence\<close>

text \<open>
  C1, as the claim states it: on these contents the second application of the transform
  of \<^verbatim>\<open>update_handler_file\<close> changes the content again. In the first, the text of the
  located parameter list, \<^verbatim>\<open>func NewFXHandler(type FXHandler\<close>, occurs a second time, where
  its end is the start of the first struct declaration. The first application finds
  \<^verbatim>\<open>logger\<close> in that struct body and adds no field, then rewrites both occurrences of the
  parameter text and so breaks the declaration; the second application finds the next
  struct body, without a logger, and adds the field. In the second content the text of a
  located struct body occurs twice, in the third the text of a located struct literal:
  the rewrite of the second occurrence breaks the first match of a pattern whose check
  had passed, and the second application rewrites the next match.
\<close>

theorem idempotence_counterexample:
  "update_handler_content
     ''func NewFXHandler(type FXHandler) *FXHandler func NewFXHandler(type FXHandler struct {logger} type FXHandler struct {a}''
   = ''func NewFXHandler(type FXHandler'' @ param_plain @ '') *FXHandler func NewFXHandler(type FXHandler''
     @ param_plain @ '' struct {logger} type FXHandler struct {a}''
   \<and> update_handler_content
       (''func NewFXHandler(type FXHandler'' @ param_plain @ '') *FXHandler func NewFXHandler(type FXHandler''
        @ param_plain @ '' struct {logger} type FXHandler struct {a}'')
   = ''func NewFXHandler(type FXHandler'' @ param_plain @ '') *FXHandler func NewFXHandler(type FXHandler''
     @ param_plain @ '' struct {logger} type FXHandler struct {a'' @ field_line @ ''}''
   \<and> update_handler_content
       (update_handler_content
          ''func NewFXHandler(type FXHandler) *FXHandler func NewFXHandler(type FXHandler struct {logger} type FXHandler struct {a}'')
     \<noteq> update_handler_content
          ''func NewFXHandler(type FXHandler) *FXHandler func NewFXHandler(type FXHandler struct {logger} type FXHandler struct {a}''
   \<and> update_handler_content
       (update_handler_content
          ''type CardHandler struct {type FXHandler} type CardHandler struct {type FXHandler struct {logger} type FXHandler struct {a}'')
     \<noteq> update_handler_content
          ''type CardHandler struct {type FXHandler} type CardHandler struct {type FXHandler struct {logger} type FXHandler struct {a}''
   \<and> update_handler_content
       (update_handler_content
          ''return &FXHandler{func } return &FXHandler{func NewFXHandler(a) *FXHandler func NewFXHandler(b) *FXHandler'')
     \<noteq> update_handler_content
          ''return &FXHandler{func } return &FXHandler{func NewFXHandler(a) *FXHandler func NewFXHandler(b) *FXHandler''"
proof -
  let ?c = "''func NewFXHandler(type FXHandler) *FXHandler func NewFXHandler(type FXHandler struct {logger} type FXHandler struct {a}''"
  let ?x = "''func NewFXHandler(type FXHandler'' @ param_plain @ '') *FXHandler func NewFXHandler(type FXHandler''
     @ param_plain @ '' struct {logger} type FXHandler struct {a}''"
  let ?y = "''func NewFXHandler(type FXHandler'' @ param_plain @ '') *FXHandler func NewFXHandler(type FXHandler''
     @ param_plain @ '' struct {logger} type FXHandler struct {a'' @ field_line @ ''}''"
  let ?c2 = "''type CardHandler struct {type FXHandler} type CardHandler struct {type FXHandler struct {logger} type FXHandler struct {a}''"
  let ?x2 = "''type CardHandler struct {type FXHandler'' @ field_line @ ''} type CardHandler struct {type FXHandler''
     @ field_line @ '' struct {logger} type FXHandler struct {a}''"
  let ?y2 = "''type CardHandler struct {type FXHandler'' @ field_line @ ''} type CardHandler struct {type FXHandler''
     @ field_line @ '' struct {logger} type FXHandler struct {a'' @ field_line @ ''}''"
  let ?c3 = "''return &FXHandler{func } return &FXHandler{func NewFXHandler(a) *FXHandler func NewFXHandler(b) *FXHandler''"
  let ?x3 = "''return &FXHandler{func '' @ init_line @ ''} return &FXHandler{func '' @ init_line
     @ ''NewFXHandler(a'' @ param_plain @ '') *FXHandler func NewFXHandler(b) *FXHandler''"
  let ?y3 = "''return &FXHandler{func '' @ init_line @ ''} return &FXHandler{func '' @ init_line
     @ ''NewFXHandler(a'' @ param_plain @ '') *FXHandler func NewFXHandler(b'' @ param_plain @ '') *FXHandler''"
  have 1: "update_handler_content ?c = ?x"
    by code_simp
  have 2: "update_handler_content ?x = ?y"
    by code_simp
  have 3: "?y \<noteq> ?x"
    by (simp add: field_line_def)
  have 4: "update_handler_content ?c2 = ?x2"
    by code_simp
  have 5: "update_handler_content ?x2 = ?y2"
    by code_simp
  have 6: "?y2 \<noteq> ?x2"
    by (simp add: field_line_def)
  have 7: "update_handler_content ?c3 = ?x3"
    by code_simp
  have 8: "update_handler_content ?x3 = ?y3"
    by code_simp
  have 9: "?y3 \<noteq> ?x3"
    by (simp add: param_plain_def)
  show ?thesis
    by (simp only: 1 2 3 4 5 6 7 8 9 not_False_eq_True simp_thms)
qed

text \<open>
  C1, amended. On every content, the import rule, the placeholder rule and the field rule
  for one handler (a name without a closing brace) give, applied twice in sequence, the
  same content as applied once; so does the parameter rule for one handler on a content
  in which the spans it rewrites occur once. For the whole transform, on every content
  with unique spans (each span that a rule locates and rewrites occurs once, as a text,
  in the content the rule works on): after the first application every rule's
  postcondition check is satisfied, the second application yields the same content as
  the first, and a run on the file so written makes no write and reports it unchanged.
\<close>

theorem idempotence_unique_spans:
  "add_import (add_import content) = add_import content
   \<and> replace_todos (replace_todos content) = replace_todos content
   \<and> (CHR ''}'' \<notin> set handler \<longrightarrow>
        add_field handler (add_field handler content) = add_field handler content)
   \<and> (good_name handler \<and> param_unique handler content \<longrightarrow>
        add_param handler (add_param handler content) = add_param handler content)
   \<and> (spans_unique content \<longrightarrow>
        postconditions (update_handler_content content)
        \<and> update_handler_content (update_handler_content content) = update_handler_content content
        \<and> (fs path = Some (update_handler_content content) \<longrightarrow>
             update_handler_file fs path = Inr (fs, [], False)))"
proof -
  have "update_handler_content (update_handler_content content) = update_handler_content content
        \<and> (fs path = Some (update_handler_content content) \<longrightarrow>
             update_handler_file fs path = Inr (fs, [], False))"
    if "postconditions (update_handler_content content)"
    using postconditions_fixed [OF that] by (simp add: update_handler_file_def)
  with postconditions_established [of content] show ?thesis
    using add_import_idem replace_todos_idem add_field_idem add_param_idem by simp
qed

theorem idempotence_unique_spans_witness:
  \<open>CHR ''}'' \<notin> set ''FXHandler''
   \<and> good_name ''FXHandler''
   \<and> param_unique ''FXHandler'' example_handler_go
   \<and> add_field ''FXHandler'' (add_field ''FXHandler'' example_handler_go)
       = add_field ''FXHandler'' example_handler_go
   \<and> add_param ''FXHandler'' (add_param ''FXHandler'' example_handler_go)
       = add_param ''FXHandler'' example_handler_go
   \<and> spans_unique example_handler_go
   \<and> update_handler_content example_handler_go =
     ''import ('' @ [NL, TAB] @ ''"context"'' @ [NL, TAB] @ ''"log/slog"'' @ [NL] @ '')'' @ [NL]
     @ ''type FXHandler struct {'' @ [NL, TAB] @ ''svc Service'' @ [NL] @ field_line @ ''}'' @ [NL]
     @ ''func NewFXHandler(svc Service'' @ param_plain @ '') *FXHandler {'' @ [NL, TAB]
     @ ''return &FXHandler{svc: svc'' @ init_line @ ''}'' @ [NL] @ ''}'' @ [NL]
   \<and> postconditions (update_handler_content example_handler_go)
   \<and> update_handler_content (update_handler_content example_handler_go)
       = update_handler_content example_handler_go
   \<and> [''handler.go'' \<mapsto> update_handler_content example_handler_go] ''handler.go''
       = Some (update_handler_content example_handler_go)
   \<and> update_handler_file [''handler.go'' \<mapsto> update_handler_content example_handler_go] ''handler.go''
       = Inr ([''handler.go'' \<mapsto> update_handler_content example_handler_go], [], False)\<close>
proof -
  have out: \<open>update_handler_content example_handler_go =
     ''import ('' @ [NL, TAB] @ ''"context"'' @ [NL, TAB] @ ''"log/slog"'' @ [NL] @ '')'' @ [NL]
     @ ''type FXHandler struct {'' @ [NL, TAB] @ ''svc Service'' @ [NL] @ field_line @ ''}'' @ [NL]
     @ ''func NewFXHandler(svc Service'' @ param_plain @ '') *FXHandler {'' @ [NL, TAB]
     @ ''return &FXHandler{svc: svc'' @ init_line @ ''}'' @ [NL] @ ''}'' @ [NL]\<close>
    by code_simp
  have h: "CHR ''}'' \<notin> set ''FXHandler''"
    by simp
  have g: "good_name ''FXHandler''"
    by code_simp
  have pu: "param_unique ''FXHandler'' example_handler_go"
    by code_simp
  have su: "spans_unique example_handler_go"
    by code_simp
  have f: "[''handler.go'' \<mapsto> update_handler_content example_handler_go] ''handler.go''
             = Some (update_handler_content example_handler_go)"
    by simp
  note w = idempotence_unique_spans
             [of example_handler_go "''FXHandler''"
                 "[''handler.go'' \<mapsto> update_handler_content example_handler_go]" "''handler.go''"]
  from w h have 1: "add_field ''FXHandler'' (add_field ''FXHandler'' example_handler_go)
                   = add_field ''FXHandler'' example_handler_go"
    by blast
  from w g pu have 2: "add_param ''FXHandler'' (add_param ''FXHandler'' example_handler_go)
                   = add_param ''FXHandler'' example_handler_go"
    by blast
  from w su have 3: "postconditions (update_handler_content example_handler_go)"
    and 4: "update_handler_content (update_handler_content example_handler_go)
             = update_handler_content example_handler_go"
    by blast+
  from w su f have 5:
    "update_handler_file [''handler.go'' \<mapsto> update_handler_content example_handler_go] ''handler.go''
       = Inr ([''handler.go'' \<mapsto> update_handler_content example_handler_go], [], False)"
    by blast
  from h g pu 1 2 su out 3 4 f 5 show ?thesis
    by (intro conjI)
qed

end
